theory Spec2Isabelle
  imports Main "HOL-Library.Word"
begin

section \<open>Errors\<close>

text \<open>
  The code returns no error values.  An \<^verbatim>\<open>assert\<close> that fails aborts the process, and an
  iterator that is dereferenced or incremented at \<^verbatim>\<open>end()\<close> is undefined behaviour.  Both are
  results of the model, so that every operation is a total function into \<open>error + state\<close>.
\<close>

datatype error = AssertionFailed | UndefinedBehaviour

section \<open>\<^verbatim>\<open>std::map\<close>\<close>

text \<open>
  A \<^verbatim>\<open>std::map<K, V>\<close> is the list of its entries in iteration order, that is in strictly
  ascending key order.  An iterator is a position in that list: \<^verbatim>\<open>begin()\<close> is \<open>0\<close> and
  \<^verbatim>\<open>end()\<close> is the length.
\<close>

type_synonym ('k, 'v) std_map = "('k \<times> 'v) list"

definition sorted_keys :: "('k::linorder, 'v) std_map \<Rightarrow> bool" where
  "sorted_keys m = sorted_wrt (<) (map fst m)"

text \<open>\<^verbatim>\<open>find\<close>: the value stored at a key, if any.\<close>

definition find_map :: "'k \<Rightarrow> ('k, 'v) std_map \<Rightarrow> 'v option" where
  "find_map k m = map_of m k"

text \<open>\<^verbatim>\<open>upper_bound(k)\<close>: the first position whose key is greater than \<open>k\<close>.\<close>

fun upper_bound :: "'k::linorder \<Rightarrow> ('k, 'v) std_map \<Rightarrow> nat" where
  "upper_bound k [] = 0"
| "upper_bound k (e # m) = (if k < fst e then 0 else Suc (upper_bound k m))"

text \<open>\<^verbatim>\<open>lower_bound(k)\<close>: the first position whose key is not less than \<open>k\<close>.\<close>

fun lower_bound :: "'k::linorder \<Rightarrow> ('k, 'v) std_map \<Rightarrow> nat" where
  "lower_bound k [] = 0"
| "lower_bound k (e # m) = (if k \<le> fst e then 0 else Suc (lower_bound k m))"

text \<open>\<^verbatim>\<open>insert(make_pair(k, v))\<close>: stores the pair unless the key is already present.\<close>

fun insert_map :: "'k::linorder \<Rightarrow> 'v \<Rightarrow> ('k, 'v) std_map \<Rightarrow> ('k, 'v) std_map" where
  "insert_map k v [] = [(k, v)]"
| "insert_map k v (e # m) =
     (if k < fst e then (k, v) # e # m
      else if k = fst e then e # m
      else e # insert_map k v m)"

text \<open>\<^verbatim>\<open>insert(first, last)\<close>: inserts the pairs of a sequence one after the other.\<close>

fun insert_range :: "('k::linorder \<times> 'v) list \<Rightarrow> ('k, 'v) std_map \<Rightarrow> ('k, 'v) std_map" where
  "insert_range [] m = m"
| "insert_range (e # es) m = insert_range es (insert_map (fst e) (snd e) m)"

text \<open>\<^verbatim>\<open>erase(first, last)\<close>: removes the entries at the positions \<open>first \<le> i < lst\<close>.\<close>

definition erase_range :: "nat \<Rightarrow> nat \<Rightarrow> ('k, 'v) std_map \<Rightarrow> ('k, 'v) std_map" where
  "erase_range first lst m = take first m @ drop lst m"

text \<open>\<^verbatim>\<open>erase(iter)\<close> for an iterator found at key \<open>k\<close> (keys are unique).\<close>

definition erase_key :: "'k \<Rightarrow> ('k, 'v) std_map \<Rightarrow> ('k, 'v) std_map" where
  "erase_key k m = filter (\<lambda>e. fst e \<noteq> k) m"

text \<open>An assignment through a reference to the value stored at key \<open>k\<close>.\<close>

definition assign_map :: "'k \<Rightarrow> 'v \<Rightarrow> ('k, 'v) std_map \<Rightarrow> ('k, 'v) std_map" where
  "assign_map k v m = map (\<lambda>e. if fst e = k then (k, v) else e) m"

section \<open>\<^verbatim>\<open>interval_map\<close> (common/interval\_map.h)\<close>

text \<open>
  The key type is \<^verbatim>\<open>uint64_t\<close>, as in \<^verbatim>\<open>PGTransaction\<close> and in the tests: additions and
  subtractions of offsets and lengths wrap around.  The member \<open>m\<close> maps a start offset to the
  pair of a length and a value.  The splitter \<open>s\<close> is a parameter.
\<close>

type_synonym 'v interval_map = "(64 word, 64 word \<times> 'v) std_map"

type_synonym 'v splitter = "64 word \<Rightarrow> 64 word \<Rightarrow> 'v \<Rightarrow> 'v"

definition get_range :: "64 word \<Rightarrow> 64 word \<Rightarrow> 'v interval_map \<Rightarrow> nat \<times> nat" where
  "get_range off len m =
     (let fst0 = upper_bound off m;
          fst1 = (if fst0 \<noteq> 0 then fst0 - 1 else fst0);
          fst2 = (if fst1 \<noteq> length m \<and> off \<ge> fst (m ! fst1) + fst (snd (m ! fst1))
                  then fst1 + 1 else fst1);
          lst = lower_bound (off + len) m
      in (fst2, lst))"

text \<open>
  The loop of \<^verbatim>\<open>erase\<close>: \<open>i\<close> runs from \<^verbatim>\<open>range.first\<close> until it equals \<^verbatim>\<open>range.second\<close>.
  When \<open>i\<close> is \<^verbatim>\<open>end()\<close> and not \<^verbatim>\<open>range.second\<close>, the body dereferences \<^verbatim>\<open>end()\<close>.
\<close>

function erase_loop ::
  "'v splitter \<Rightarrow> 64 word \<Rightarrow> 64 word \<Rightarrow> 'v interval_map \<Rightarrow> nat \<Rightarrow> nat \<Rightarrow>
   (64 word \<times> 64 word \<times> 'v) list \<Rightarrow> error + (64 word \<times> 64 word \<times> 'v) list" where
  "erase_loop s off len m i lst to_insert =
     (if i = lst then Inr to_insert
      else if length m \<le> i then Inl UndefinedBehaviour
      else
        let k = fst (m ! i); l = fst (snd (m ! i)); v = snd (snd (m ! i));
            t1 = (if k < off
                  then to_insert @ [(k, (off - k, s 0 (off - k) v))]
                  else to_insert);
            t2 = (if off + len < k + l
                  then (let nlen = (k + l) - (off + len)
                        in t1 @ [(off + len, (nlen, s (l - nlen) nlen v))])
                  else t1)
        in erase_loop s off len m (i + 1) lst t2)"
  by pat_completeness auto
termination
  by (relation "measure (\<lambda>(s, off, len, m, i, lst, to_insert). length m - i)") auto

declare erase_loop.simps [simp del]

definition erase :: "'v splitter \<Rightarrow> 64 word \<Rightarrow> 64 word \<Rightarrow> 'v interval_map \<Rightarrow> error + 'v interval_map" where
  "erase s off len m =
     (if len = 0 then Inr m
      else
        let rng = get_range off len m in
        case erase_loop s off len m (fst rng) (snd rng) [] of
          Inl e \<Rightarrow> Inl e
        | Inr to_insert \<Rightarrow> Inr (insert_range to_insert (erase_range (fst rng) (snd rng) m)))"

definition insert_im ::
  "'v splitter \<Rightarrow> 64 word \<Rightarrow> 64 word \<Rightarrow> 'v \<Rightarrow> 'v interval_map \<Rightarrow> error + 'v interval_map" where
  "insert_im s off len v m =
     (case erase s off len m of
        Inl e \<Rightarrow> Inl e
      | Inr m' \<Rightarrow> Inr (insert_map off (len, v) m'))"

definition clear :: "'v interval_map \<Rightarrow> 'v interval_map" where
  "clear m = []"

definition empty_im :: "'v interval_map \<Rightarrow> bool" where
  "empty_im m = (m = [])"

definition ext_count :: "'v interval_map \<Rightarrow> nat" where
  "ext_count m = length m"

text \<open>\<^verbatim>\<open>get_containing_range\<close>: the two iterators of \<^verbatim>\<open>get_range\<close>.\<close>

definition get_containing_range :: "64 word \<Rightarrow> 64 word \<Rightarrow> 'v interval_map \<Rightarrow> nat \<times> nat" where
  "get_containing_range off len m = get_range off len m"

section \<open>\<^verbatim>\<open>PGTransaction\<close> (osd/PGTransaction.h)\<close>

text \<open>
  \<^verbatim>\<open>hobject_t\<close> (common/hobject.h) is not among the sources.  The object id is the type
  parameter \<open>'h\<close>; its order is the comparator of the maps, and \<^verbatim>\<open>is_temp\<close> is a parameter
  of \<^verbatim>\<open>rename\<close>.  A \<^verbatim>\<open>bufferlist\<close> is a sequence of bytes and a \<^verbatim>\<open>snapid_t\<close> is a 64-bit
  number.  The side table \<^verbatim>\<open>obc_map\<close> is written by \<^verbatim>\<open>add_obc\<close> only and read by no
  operation below; the state of a transaction is its \<^verbatim>\<open>op_map\<close>.
\<close>

type_synonym bufferlist = string

type_synonym snapid_t = "64 word"

text \<open>
  Modelled from the spec: \<^verbatim>\<open>bufferlist::substr_of\<close> (include/buffer.h is not among the
  sources), the slice of \<open>len\<close> bytes that starts at \<open>off\<close>.
\<close>

definition substr_of :: "bufferlist \<Rightarrow> 64 word \<Rightarrow> 64 word \<Rightarrow> bufferlist" where
  "substr_of other off len = take (unat len) (drop (unat off) other)"

datatype 'h InitType = Init_None | Init_Create | Init_Clone 'h | Init_Rename 'h

datatype OmapUpdateType = Remove | Insert

record alloc_hint_t =
  expected_object_size :: "64 word"
  expected_write_size :: "64 word"
  flags :: "32 word"

datatype 'h BufferUpdateType =
  Write bufferlist "32 word"
| Zero
| CloneRange 'h "64 word" "64 word"

record 'h ObjectOperation =
  init_type :: "'h InitType"
  delete_first :: bool
  clear_omap :: bool
  op_truncate :: "64 word option"
  attr_updates :: "string \<rightharpoonup> bufferlist option"
  omap_updates :: "(OmapUpdateType \<times> bufferlist) list"
  omap_header :: "bufferlist option"
  updated_snaps :: "snapid_t set option"
  alloc_hint :: "alloc_hint_t option"
  buffer_updates :: "'h BufferUpdateType interval_map"

text \<open>The default constructor \<^verbatim>\<open>ObjectOperation()\<close>.\<close>

definition ObjectOperation_default :: "'h ObjectOperation" where
  "ObjectOperation_default =
     \<lparr>init_type = Init_None, delete_first = False, clear_omap = False, op_truncate = None,
      attr_updates = Map.empty, omap_updates = [], omap_header = None, updated_snaps = None,
      alloc_hint = None, buffer_updates = []\<rparr>"

definition is_delete :: "'h ObjectOperation \<Rightarrow> bool" where
  "is_delete op = (init_type op = Init_None \<and> delete_first op)"

definition is_none :: "'h ObjectOperation \<Rightarrow> bool" where
  "is_none op = (init_type op = Init_None \<and> \<not> delete_first op)"

definition is_fresh_object :: "'h ObjectOperation \<Rightarrow> bool" where
  "is_fresh_object op = (init_type op \<noteq> Init_None)"

text \<open>\<^verbatim>\<open>has_source\<close>: the source written through the pointer is the result.\<close>

definition has_source :: "'h ObjectOperation \<Rightarrow> 'h option" where
  "has_source op =
     (case init_type op of
        Init_Clone source \<Rightarrow> Some source
      | Init_Rename source \<Rightarrow> Some source
      | Init_None \<Rightarrow> None
      | Init_Create \<Rightarrow> None)"

fun Splitter :: "'h BufferUpdateType splitter" where
  "Splitter offset len (Write buffer fadvise_flags) =
     Write (substr_of buffer offset len) fadvise_flags"
| "Splitter offset len Zero = Zero"
| "Splitter offset len (CloneRange frm c_offset c_len) = CloneRange frm (c_offset + offset) len"

type_synonym 'h op_map = "('h, 'h ObjectOperation) std_map"

text \<open>
  \<^verbatim>\<open>operator[]\<close>: \<open>subscript k d m\<close> is the map after the access, which stores the default
  value \<open>d\<close> at an absent key, and \<open>at_map k d m\<close> is the value the returned reference
  refers to.
\<close>

definition subscript :: "'k::linorder \<Rightarrow> 'v \<Rightarrow> ('k, 'v) std_map \<Rightarrow> ('k, 'v) std_map" where
  "subscript k d m = (case find_map k m of None \<Rightarrow> insert_map k d m | Some v \<Rightarrow> m)"

definition at_map :: "'k \<Rightarrow> 'v \<Rightarrow> ('k, 'v) std_map \<Rightarrow> 'v" where
  "at_map k d m = (case find_map k m of None \<Rightarrow> d | Some v \<Rightarrow> v)"

text \<open>\<^verbatim>\<open>count\<close>: \<open>1\<close> when the key is present and \<open>0\<close> otherwise.\<close>

definition count_map :: "'k \<Rightarrow> ('k, 'v) std_map \<Rightarrow> nat" where
  "count_map k m = (case find_map k m of None \<Rightarrow> 0 | Some v \<Rightarrow> 1)"

definition get_object_op_for_modify ::
  "'h::linorder \<Rightarrow> 'h op_map \<Rightarrow> error + ('h op_map \<times> 'h ObjectOperation)" where
  "get_object_op_for_modify hoid m =
     (let m' = subscript hoid ObjectOperation_default m;
          op = at_map hoid ObjectOperation_default m
      in if is_delete op then Inl AssertionFailed else Inr (m', op))"

definition create :: "'h::linorder \<Rightarrow> 'h op_map \<Rightarrow> error + 'h op_map" where
  "create hoid m =
     (let m' = subscript hoid ObjectOperation_default m;
          op = at_map hoid ObjectOperation_default m
      in if \<not> (is_none op \<or> is_delete op) then Inl AssertionFailed
         else Inr (assign_map hoid (op\<lparr>init_type := Init_Create\<rparr>) m'))"

definition clone :: "'h::linorder \<Rightarrow> 'h \<Rightarrow> 'h op_map \<Rightarrow> error + 'h op_map" where
  "clone target source m =
     (let m' = subscript target ObjectOperation_default m;
          op = at_map target ObjectOperation_default m
      in if \<not> (is_none op \<or> is_delete op) then Inl AssertionFailed
         else Inr (assign_map target (op\<lparr>init_type := Init_Clone source\<rparr>) m'))"

definition rename :: "('h::linorder \<Rightarrow> bool) \<Rightarrow> 'h \<Rightarrow> 'h \<Rightarrow> 'h op_map \<Rightarrow> error + 'h op_map" where
  "rename is_temp target source m =
     (if \<not> is_temp source then Inl AssertionFailed
      else if is_temp target then Inl AssertionFailed
      else
        let m1 = subscript target ObjectOperation_default m;
            op = at_map target ObjectOperation_default m
        in if \<not> (is_none op \<or> is_delete op) then Inl AssertionFailed
           else
             (case find_map source m1 of
                Some sop \<Rightarrow>
                  let m2 = assign_map target sop m1;
                      m3 = erase_key source m2
                  in Inr (assign_map target (sop\<lparr>init_type := Init_Rename source\<rparr>) m3)
              | None \<Rightarrow> Inr (assign_map target (op\<lparr>init_type := Init_Rename source\<rparr>) m1)))"

definition remove :: "'h::linorder \<Rightarrow> 'h op_map \<Rightarrow> error + 'h op_map" where
  "remove hoid m =
     (case get_object_op_for_modify hoid m of
        Inl e \<Rightarrow> Inl e
      | Inr (m', op) \<Rightarrow>
          if updated_snaps op \<noteq> None then Inl AssertionFailed
          else Inr (assign_map hoid (ObjectOperation_default\<lparr>delete_first := True\<rparr>) m'))"

definition update_snaps :: "'h::linorder \<Rightarrow> snapid_t set \<Rightarrow> 'h op_map \<Rightarrow> error + 'h op_map" where
  "update_snaps hoid snaps m =
     (case get_object_op_for_modify hoid m of
        Inl e \<Rightarrow> Inl e
      | Inr (m', op) \<Rightarrow>
          if updated_snaps op \<noteq> None then Inl AssertionFailed
          else Inr (assign_map hoid (op\<lparr>updated_snaps := Some snaps\<rparr>) m'))"

definition omap_clear :: "'h::linorder \<Rightarrow> 'h op_map \<Rightarrow> error + 'h op_map" where
  "omap_clear hoid m =
     (case get_object_op_for_modify hoid m of
        Inl e \<Rightarrow> Inl e
      | Inr (m', op) \<Rightarrow>
          Inr (assign_map hoid
                 (op\<lparr>clear_omap := True, omap_updates := [], omap_header := None\<rparr>) m'))"

text \<open>\<^verbatim>\<open>std::numeric_limits<uint64_t>::max()\<close>\<close>

definition uint64_max :: "64 word" where
  "uint64_max = 18446744073709551615"

text \<open>
  The method \<^verbatim>\<open>truncate\<close>.  The field \<^verbatim>\<open>truncate\<close> of an operation is \<open>op_truncate\<close>, since the
  record package defines a \<open>truncate\<close> of its own.
\<close>

definition truncate :: "'h::linorder \<Rightarrow> 64 word \<Rightarrow> 'h op_map \<Rightarrow> error + 'h op_map" where
  "truncate hoid off m =
     (case get_object_op_for_modify hoid m of
        Inl e \<Rightarrow> Inl e
      | Inr (m', op) \<Rightarrow>
          if (case op_truncate op of Some t \<Rightarrow> t \<ge> off | None \<Rightarrow> False) then Inr m'
          else
            (case erase Splitter off (uint64_max - off) (buffer_updates op) of
               Inl e \<Rightarrow> Inl e
             | Inr bu \<Rightarrow>
                 let op1 = op\<lparr>buffer_updates := bu\<rparr>;
                     op2 = (if \<not> is_fresh_object op1 then op1\<lparr>op_truncate := Some off\<rparr> else op1)
                 in Inr (assign_map hoid op2 m')))"

definition setattrs ::
  "'h::linorder \<Rightarrow> (string, bufferlist) std_map \<Rightarrow> 'h op_map \<Rightarrow> error + 'h op_map" where
  "setattrs hoid attrs m =
     (case get_object_op_for_modify hoid m of
        Inl e \<Rightarrow> Inl e
      | Inr (m', op) \<Rightarrow>
          Inr (assign_map hoid
                 (op\<lparr>attr_updates := fold (\<lambda>i au. au(fst i \<mapsto> Some (snd i))) attrs (attr_updates op)\<rparr>)
                 m'))"

definition setattr :: "'h::linorder \<Rightarrow> string \<Rightarrow> bufferlist \<Rightarrow> 'h op_map \<Rightarrow> error + 'h op_map" where
  "setattr hoid attrname bl m =
     (case get_object_op_for_modify hoid m of
        Inl e \<Rightarrow> Inl e
      | Inr (m', op) \<Rightarrow>
          Inr (assign_map hoid (op\<lparr>attr_updates := (attr_updates op)(attrname \<mapsto> Some bl)\<rparr>) m'))"

definition rmattr :: "'h::linorder \<Rightarrow> string \<Rightarrow> 'h op_map \<Rightarrow> error + 'h op_map" where
  "rmattr hoid attrname m =
     (case get_object_op_for_modify hoid m of
        Inl e \<Rightarrow> Inl e
      | Inr (m', op) \<Rightarrow>
          Inr (assign_map hoid (op\<lparr>attr_updates := (attr_updates op)(attrname \<mapsto> None)\<rparr>) m'))"

definition set_alloc_hint ::
  "'h::linorder \<Rightarrow> 64 word \<Rightarrow> 64 word \<Rightarrow> 32 word \<Rightarrow> 'h op_map \<Rightarrow> error + 'h op_map" where
  "set_alloc_hint hoid object_size write_size fl m =
     (case get_object_op_for_modify hoid m of
        Inl e \<Rightarrow> Inl e
      | Inr (m', op) \<Rightarrow>
          Inr (assign_map hoid
                 (op\<lparr>alloc_hint := Some \<lparr>expected_object_size = object_size,
                                         expected_write_size = write_size, flags = fl\<rparr>\<rparr>) m'))"

definition "write" ::
  "'h::linorder \<Rightarrow> 64 word \<Rightarrow> 64 word \<Rightarrow> bufferlist \<Rightarrow> 32 word \<Rightarrow> 'h op_map \<Rightarrow> error + 'h op_map" where
  "write hoid off len bl fadvise_flags m =
     (case get_object_op_for_modify hoid m of
        Inl e \<Rightarrow> Inl e
      | Inr (m', op) \<Rightarrow>
          (case insert_im Splitter off len (Write bl fadvise_flags) (buffer_updates op) of
             Inl e \<Rightarrow> Inl e
           | Inr bu \<Rightarrow> Inr (assign_map hoid (op\<lparr>buffer_updates := bu\<rparr>) m')))"

definition clone_range ::
  "'h::linorder \<Rightarrow> 'h \<Rightarrow> 64 word \<Rightarrow> 64 word \<Rightarrow> 64 word \<Rightarrow> 'h op_map \<Rightarrow> error + 'h op_map" where
  "clone_range frm to fromoff len tooff m =
     (case get_object_op_for_modify to m of
        Inl e \<Rightarrow> Inl e
      | Inr (m', op) \<Rightarrow>
          (case insert_im Splitter tooff len (CloneRange frm fromoff len) (buffer_updates op) of
             Inl e \<Rightarrow> Inl e
           | Inr bu \<Rightarrow> Inr (assign_map to (op\<lparr>buffer_updates := bu\<rparr>) m')))"

definition zero :: "'h::linorder \<Rightarrow> 64 word \<Rightarrow> 64 word \<Rightarrow> 'h op_map \<Rightarrow> error + 'h op_map" where
  "zero hoid off len m =
     (case get_object_op_for_modify hoid m of
        Inl e \<Rightarrow> Inl e
      | Inr (m', op) \<Rightarrow>
          (case insert_im Splitter off len Zero (buffer_updates op) of
             Inl e \<Rightarrow> Inl e
           | Inr bu \<Rightarrow> Inr (assign_map hoid (op\<lparr>buffer_updates := bu\<rparr>) m')))"

definition omap_setkeys :: "'h::linorder \<Rightarrow> bufferlist \<Rightarrow> 'h op_map \<Rightarrow> error + 'h op_map" where
  "omap_setkeys hoid keys_bl m =
     (case get_object_op_for_modify hoid m of
        Inl e \<Rightarrow> Inl e
      | Inr (m', op) \<Rightarrow>
          Inr (assign_map hoid (op\<lparr>omap_updates := omap_updates op @ [(Insert, keys_bl)]\<rparr>) m'))"

definition omap_rmkeys :: "'h::linorder \<Rightarrow> bufferlist \<Rightarrow> 'h op_map \<Rightarrow> error + 'h op_map" where
  "omap_rmkeys hoid keys_bl m =
     (case get_object_op_for_modify hoid m of
        Inl e \<Rightarrow> Inl e
      | Inr (m', op) \<Rightarrow>
          Inr (assign_map hoid (op\<lparr>omap_updates := omap_updates op @ [(Remove, keys_bl)]\<rparr>) m'))"

text \<open>
  The overloads that take the keys themselves encode them first; \<^verbatim>\<open>::encode\<close> is not among the
  sources and is the parameter \<open>encode\<close>.
\<close>

definition omap_setkeys_typed ::
  "('a \<Rightarrow> bufferlist) \<Rightarrow> 'h::linorder \<Rightarrow> 'a \<Rightarrow> 'h op_map \<Rightarrow> error + 'h op_map" where
  "omap_setkeys_typed encode hoid keys m = omap_setkeys hoid (encode keys) m"

definition omap_rmkeys_typed ::
  "('a \<Rightarrow> bufferlist) \<Rightarrow> 'h::linorder \<Rightarrow> 'a \<Rightarrow> 'h op_map \<Rightarrow> error + 'h op_map" where
  "omap_rmkeys_typed encode hoid keys m = omap_rmkeys hoid (encode keys) m"

definition omap_setheader :: "'h::linorder \<Rightarrow> bufferlist \<Rightarrow> 'h op_map \<Rightarrow> error + 'h op_map" where
  "omap_setheader hoid header m =
     (case get_object_op_for_modify hoid m of
        Inl e \<Rightarrow> Inl e
      | Inr (m', op) \<Rightarrow> Inr (assign_map hoid (op\<lparr>omap_header := Some header\<rparr>) m'))"

definition empty_pgt :: "'h op_map \<Rightarrow> bool" where
  "empty_pgt m = (m = [])"

definition get_bytes_written :: "'h op_map \<Rightarrow> 64 word" where
  "get_bytes_written m =
     fold (\<lambda>i ret. fold (\<lambda>j ret. ret + fst (snd j)) (buffer_updates (snd i)) ret) m 0"

definition nop :: "'h::linorder \<Rightarrow> 'h op_map \<Rightarrow> error + 'h op_map" where
  "nop hoid m =
     (case get_object_op_for_modify hoid m of
        Inl e \<Rightarrow> Inl e
      | Inr (m', op) \<Rightarrow> Inr m')"

subsection \<open>\<^verbatim>\<open>safe_create_traverse\<close>\<close>

type_synonym 'h dgraph = "('h, 'h list) std_map"

text \<open>
  One round of the first loop, for the entry \<open>opair\<close> of \<^verbatim>\<open>op_map\<close>: \<open>st\<close> is the pair of
  \<^verbatim>\<open>dgraph\<close> and \<^verbatim>\<open>stack\<close>.
\<close>

definition populate_step ::
  "'h::linorder op_map \<Rightarrow> 'h \<times> 'h ObjectOperation \<Rightarrow> 'h dgraph \<times> 'h list \<Rightarrow> 'h dgraph \<times> 'h list" where
  "populate_step op_map opair st =
     (let dgraph = fst st; stack = snd st in
      case has_source (snd opair) of
        Some source \<Rightarrow>
          let dgraph1 = subscript source [] dgraph;
              l = at_map source [] dgraph;
              stack1 = (if l = [] \<and> count_map source op_map = 0 then stack @ [source] else stack)
          in (assign_map source (l @ [fst opair]) dgraph1, stack1)
      | None \<Rightarrow> (dgraph, stack @ [fst opair]))"

definition populate :: "'h::linorder op_map \<Rightarrow> 'h dgraph \<times> 'h list" where
  "populate op_map = fold (populate_step op_map) op_map ([], [])"

text \<open>
  The second loop.  The calls \<^verbatim>\<open>t(*opiter)\<close> are recorded in \<open>visited\<close>, in the order in which
  they are made.
\<close>

function traverse_loop ::
  "'h::linorder op_map \<Rightarrow> 'h dgraph \<Rightarrow> 'h list \<Rightarrow> ('h \<times> 'h ObjectOperation) list \<Rightarrow>
   error + ('h \<times> 'h ObjectOperation) list" where
  "traverse_loop op_map dgraph [] visited = Inr visited"
| "traverse_loop op_map dgraph (cur # stack) visited =
     (case find_map cur dgraph of
        None \<Rightarrow>
          traverse_loop op_map dgraph stack
            (case find_map cur op_map of
               Some op \<Rightarrow> visited @ [(cur, op)]
             | None \<Rightarrow> visited)
      | Some l \<Rightarrow>
          if l = [] then Inl AssertionFailed
          else traverse_loop op_map (erase_key cur dgraph) (l @ cur # stack) visited)"
  by pat_completeness auto
termination
proof (relation "measure (\<lambda>(op_map, dgraph, stack, visited).
    length dgraph + sum_list (map (\<lambda>e. length (snd e)) dgraph) + length stack)")
  show "wf (measure (\<lambda>(op_map :: 'a op_map, dgraph :: 'a dgraph, stack :: 'a list,
      visited :: ('a \<times> 'a ObjectOperation) list).
    length dgraph + sum_list (map (\<lambda>e. length (snd e)) dgraph) + length stack))"
    by simp
next
  fix op_map :: "'a op_map" and dgraph :: "'a dgraph" and cur stack
    and visited :: "('a \<times> 'a ObjectOperation) list"
  assume "find_map cur dgraph = None"
  show "((op_map, dgraph, stack,
          case find_map cur op_map of None \<Rightarrow> visited | Some op \<Rightarrow> visited @ [(cur, op)]),
         op_map, dgraph, cur # stack, visited)
        \<in> measure (\<lambda>(op_map, dgraph, stack, visited).
            length dgraph + sum_list (map (\<lambda>e. length (snd e)) dgraph) + length stack)"
    by simp
next
  fix op_map :: "'a op_map" and dgraph :: "'a dgraph" and cur stack l
    and visited :: "('a \<times> 'a ObjectOperation) list"
  assume f: "find_map cur dgraph = Some l"
  have "map_of dg cur = Some l \<Longrightarrow>
        length (filter (\<lambda>e. fst e \<noteq> cur) dg)
          + sum_list (map (\<lambda>e. length (snd e)) (filter (\<lambda>e. fst e \<noteq> cur) dg)) + length l
        < length dg + sum_list (map (\<lambda>e. length (snd e)) dg)" for dg :: "'a dgraph"
  proof (induction dg)
    case Nil
    then show ?case by simp
  next
    case (Cons e dg)
    have le: "length (filter (\<lambda>e. fst e \<noteq> cur) dg)
          + sum_list (map (\<lambda>e. length (snd e)) (filter (\<lambda>e. fst e \<noteq> cur) dg))
        \<le> length dg + sum_list (map (\<lambda>e. length (snd e)) dg)"
      by (induction dg) auto
    show ?case
    proof (cases "fst e = cur")
      case True
      with Cons.prems have "snd e = l" by (cases e) simp
      with True le show ?thesis by simp
    next
      case False
      with Cons.prems have "map_of dg cur = Some l" by (cases e) simp
      from Cons.IH [OF this] False show ?thesis by simp
    qed
  qed
  from this [of dgraph] f
  show "((op_map, erase_key cur dgraph, l @ cur # stack, visited),
         op_map, dgraph, cur # stack, visited)
        \<in> measure (\<lambda>(op_map, dgraph, stack, visited).
            length dgraph + sum_list (map (\<lambda>e. length (snd e)) dgraph) + length stack)"
    by (simp add: find_map_def erase_key_def)
qed

definition safe_create_traverse ::
  "'h::linorder op_map \<Rightarrow> error + ('h \<times> 'h ObjectOperation) list" where
  "safe_create_traverse op_map =
     (let st = populate op_map in traverse_loop op_map (fst st) (snd st) [])"

section \<open>Properties of an interval map\<close>

text \<open>
  The range of an entry \<open>(start, len, value)\<close> is \<open>[start, start + len)\<close>, read in the natural
  numbers: \<open>end_of\<close> does not wrap around.
\<close>

definition start_of :: "64 word \<times> 64 word \<times> 'v \<Rightarrow> nat" where
  "start_of e = unat (fst e)"

definition end_of :: "64 word \<times> 64 word \<times> 'v \<Rightarrow> nat" where
  "end_of e = unat (fst e) + unat (fst (snd e))"

text \<open>I1: two entries that start at different offsets do not overlap.\<close>

definition I1 :: "'v interval_map \<Rightarrow> bool" where
  "I1 m = (\<forall>e1 \<in> set m. \<forall>e2 \<in> set m. fst e1 < fst e2 \<longrightarrow> end_of e1 \<le> start_of e2)"

text \<open>I2: no entry is empty.\<close>

definition I2 :: "'v interval_map \<Rightarrow> bool" where
  "I2 m = (\<forall>e \<in> set m. 0 < fst (snd e))"

text \<open>I3: forward iteration yields strictly ascending start offsets.\<close>

definition I3 :: "'v interval_map \<Rightarrow> bool" where
  "I3 m = sorted_wrt (<) (map fst m)"

text \<open>No entry reaches beyond the largest offset \<open>2 ^ 64 - 1\<close>.\<close>

definition ends_representable :: "'v interval_map \<Rightarrow> bool" where
  "ends_representable m = (\<forall>e \<in> set m. end_of e \<le> unat uint64_max)"

text \<open>The range of the entry \<open>e\<close> and the range \<open>[off, off + len)\<close> have an offset in common.\<close>

definition intersects :: "64 word \<Rightarrow> 64 word \<Rightarrow> 64 word \<times> 64 word \<times> 'v \<Rightarrow> bool" where
  "intersects off len e = (start_of e < unat off + unat len \<and> unat off < end_of e)"

text \<open>
  What \<^verbatim>\<open>erase(off, len)\<close> leaves of one entry, in the words of the specification: an entry
  that intersects the range is replaced by its prefix remnant, when it starts before \<open>off\<close>, and
  its suffix remnant, when it ends after \<open>off + len\<close>; any other entry stays.
\<close>

definition erase_entry ::
  "'v splitter \<Rightarrow> 64 word \<Rightarrow> 64 word \<Rightarrow> 64 word \<times> 64 word \<times> 'v \<Rightarrow> (64 word \<times> 64 word \<times> 'v) list" where
  "erase_entry s off len e =
     (let e_start = fst e; e_len = fst (snd e); e_value = snd (snd e) in
      if intersects off len e then
        (if e_start < off then [(e_start, (off - e_start, s 0 (off - e_start) e_value))] else []) @
        (if off + len < e_start + e_len
         then (let suffix_len = (e_start + e_len) - (off + len)
               in [(off + len, (suffix_len, s (e_len - suffix_len) suffix_len e_value))])
         else [])
      else [e])"

text \<open>A sequence of operations on an interval map, run from left to right.\<close>

datatype 'v im_op = Insert_op "64 word" "64 word" 'v | Erase_op "64 word" "64 word"

fun apply_op :: "'v splitter \<Rightarrow> 'v im_op \<Rightarrow> 'v interval_map \<Rightarrow> error + 'v interval_map" where
  "apply_op s (Insert_op off len v) m = insert_im s off len v m"
| "apply_op s (Erase_op off len) m = erase s off len m"

fun run_ops :: "'v splitter \<Rightarrow> 'v im_op list \<Rightarrow> 'v interval_map \<Rightarrow> error + 'v interval_map" where
  "run_ops s [] m = Inr m"
| "run_ops s (x # xs) m =
     (case apply_op s x m of Inl e \<Rightarrow> Inl e | Inr m' \<Rightarrow> run_ops s xs m')"

text \<open>
  The operation is an insertion of a non-empty range or an erasure, and its range does not reach
  beyond \<open>2 ^ 64 - 1\<close>.
\<close>

fun op_in_range :: "'v im_op \<Rightarrow> bool" where
  "op_in_range (Insert_op off len v) = (0 < len \<and> unat off + unat len \<le> unat uint64_max)"
| "op_in_range (Erase_op off len) = (unat off + unat len \<le> unat uint64_max)"

text \<open>
  The three invariants and the bound on the ends in one predicate on the list of entries: every
  entry is non-empty and ends at or below \<open>2 ^ 64 - 1\<close>, and every entry ends where or before
  each later entry starts.
\<close>

definition wf_im :: "'v interval_map \<Rightarrow> bool" where
  "wf_im m = (sorted_wrt (\<lambda>a b. end_of a \<le> start_of b) m \<and>
              (\<forall>e \<in> set m. start_of e < end_of e \<and> end_of e < 2 ^ 64))"

text \<open>What one round of the loop of \<^verbatim>\<open>erase\<close> appends to \<^verbatim>\<open>to_insert\<close> for the entry \<open>e\<close>.\<close>

definition remnants ::
  "'v splitter \<Rightarrow> 64 word \<Rightarrow> 64 word \<Rightarrow> 64 word \<times> 64 word \<times> 'v \<Rightarrow> (64 word \<times> 64 word \<times> 'v) list" where
  "remnants s off len e =
     (if fst e < off then [(fst e, (off - fst e, s 0 (off - fst e) (snd (snd e))))] else []) @
     (if off + len < fst e + fst (snd e)
      then [(off + len, ((fst e + fst (snd e)) - (off + len),
             s (fst (snd e) - ((fst e + fst (snd e)) - (off + len)))
               ((fst e + fst (snd e)) - (off + len)) (snd (snd e))))]
      else [])"

text \<open>The splitter of the tests (test/common/test\_interval\_map.cc): a slice of the bytes.\<close>

definition splitter_test :: "bufferlist splitter" where
  "splitter_test offset len bu = substr_of bu offset len"

section \<open>Properties of the traversal\<close>

text \<open>The source of the operation stored at \<open>h\<close>, if there is an operation and it has one.\<close>

definition parent_of :: "'h op_map \<Rightarrow> 'h \<Rightarrow> 'h option" where
  "parent_of op_map h = (case find_map h op_map of None \<Rightarrow> None | Some op \<Rightarrow> has_source op)"

text \<open>The clone and rename edges, from the source to the target.\<close>

definition edges :: "'h op_map \<Rightarrow> ('h \<times> 'h) set" where
  "edges op_map = {(source, target). parent_of op_map target = Some source}"

text \<open>\<open>x\<close> occurs in the list, and \<open>y\<close> occurs after the first occurrence of \<open>x\<close>.\<close>

fun before :: "'a \<Rightarrow> 'a \<Rightarrow> 'a list \<Rightarrow> bool" where
  "before x y [] = False"
| "before x y (z # zs) = (if z = x then y \<in> set zs else before x y zs)"

text \<open>
  The invariant of the first loop of \<^verbatim>\<open>safe_create_traverse\<close>, after the entries with the keys
  \<open>seen\<close>: \<^verbatim>\<open>dgraph\<close> maps every source of a seen entry to the seen targets of that source, and
  \<^verbatim>\<open>stack\<close> holds the seen entries without a source and the sources that are not keys of
  \<^verbatim>\<open>op_map\<close>, each once.
\<close>

definition pop_inv :: "'h op_map \<Rightarrow> 'h list \<Rightarrow> 'h dgraph \<times> 'h list \<Rightarrow> bool" where
  "pop_inv op_map seen st =
     (set seen \<subseteq> fst ` set op_map \<and>
      (\<forall>s l. find_map s (fst st) = Some l \<longrightarrow>
         l \<noteq> [] \<and> distinct l \<and> set l = {h \<in> set seen. parent_of op_map h = Some s}) \<and>
      (\<forall>h \<in> set seen. \<forall>s. parent_of op_map h = Some s \<longrightarrow> find_map s (fst st) \<noteq> None) \<and>
      distinct (snd st) \<and>
      set (snd st) = {h \<in> set seen. parent_of op_map h = None} \<union>
                     {s. find_map s (fst st) \<noteq> None \<and> s \<notin> fst ` set op_map})"

text \<open>
  The invariant of the second loop: the lists of \<^verbatim>\<open>dgraph\<close> hold targets of their key that are
  neither on the stack nor visited; the visited entries and the stack have no duplicates; the
  visited entries are entries of \<^verbatim>\<open>op_map\<close>; every key of \<^verbatim>\<open>op_map\<close> is visited, on the stack
  or in a list; every key of \<^verbatim>\<open>dgraph\<close> is on the stack or in a list; a visited source comes
  after its targets; and a target that is not visited yet is in the list of its source or on
  the stack in front of its source.
\<close>

definition trav_inv ::
  "'h op_map \<Rightarrow> 'h dgraph \<Rightarrow> 'h list \<Rightarrow> ('h \<times> 'h ObjectOperation) list \<Rightarrow> bool" where
  "trav_inv m dg stack visited =
     ((\<forall>s l. find_map s dg = Some l \<longrightarrow>
         l \<noteq> [] \<and> distinct l \<and>
         (\<forall>h \<in> set l. parent_of m h = Some s \<and> h \<notin> set stack \<and> h \<notin> fst ` set visited)) \<and>
      distinct (map fst visited @ stack) \<and>
      (\<forall>e \<in> set visited. find_map (fst e) m = Some (snd e)) \<and>
      (\<forall>h \<in> fst ` set m. h \<in> fst ` set visited \<or> h \<in> set stack \<or>
         (\<exists>s l. find_map s dg = Some l \<and> h \<in> set l)) \<and>
      (\<forall>s. find_map s dg \<noteq> None \<longrightarrow>
         s \<in> set stack \<or> (\<exists>s' l. find_map s' dg = Some l \<and> s \<in> set l)) \<and>
      (\<forall>h s. parent_of m h = Some s \<longrightarrow> s \<in> fst ` set visited \<longrightarrow>
         before h s (map fst visited)) \<and>
      (\<forall>h s. parent_of m h = Some s \<longrightarrow> h \<notin> fst ` set visited \<longrightarrow>
         (\<exists>l. find_map s dg = Some l \<and> h \<in> set l) \<or>
         (\<exists>pre post. stack = pre @ s # post \<and> h \<in> set pre)))"

section \<open>Lemmas\<close>

subsection \<open>Lookups in a \<^verbatim>\<open>std::map\<close>\<close>

lemma map_of_insert_map:
  "map_of m k = None \<Longrightarrow> map_of (insert_map k v m) = (map_of m)(k \<mapsto> v)"
  by (induction m) (auto split: if_splits)

lemma find_subscript:
  "find_map h (subscript k d m) = (if h = k then Some (at_map k d m) else find_map h m)"
  by (auto simp: find_map_def subscript_def at_map_def map_of_insert_map split: option.splits)

lemma find_assign:
  "find_map h (assign_map k v m) = (if h = k \<and> find_map k m \<noteq> None then Some v else find_map h m)"
  by (induction m) (auto simp: find_map_def assign_map_def)

lemma find_erase_key:
  "find_map h (erase_key k m) = (if h = k then None else find_map h m)"
  by (induction m) (auto simp: find_map_def erase_key_def)

lemma at_map_Some: "find_map k m = Some v \<Longrightarrow> at_map k d m = v"
  by (simp add: at_map_def)

lemma at_map_None: "find_map k m = None \<Longrightarrow> at_map k d m = d"
  by (simp add: at_map_def)

lemma modify_deleted:
  "find_map hoid m = Some op \<Longrightarrow> is_delete op \<Longrightarrow> get_object_op_for_modify hoid m = Inl AssertionFailed"
  by (simp add: get_object_op_for_modify_def at_map_Some)

lemma modify_ok:
  "\<not> is_delete (at_map hoid ObjectOperation_default m) \<Longrightarrow>
   get_object_op_for_modify hoid m =
     Inr (subscript hoid ObjectOperation_default m, at_map hoid ObjectOperation_default m)"
  by (simp add: get_object_op_for_modify_def Let_def)

subsection \<open>The invariants of an interval map\<close>

lemma unat_uint64_max: "unat uint64_max = 2 ^ 64 - 1"
  by (simp add: uint64_max_def)

lemma wf_im_Nil: "wf_im []"
  by (simp add: wf_im_def)

lemma wf_im_Cons:
  "wf_im (e # m) = (start_of e < end_of e \<and> end_of e < 2 ^ 64 \<and> (\<forall>x \<in> set m. end_of e \<le> start_of x) \<and> wf_im m)"
  by (auto simp: wf_im_def)

lemma wf_im_append:
  "wf_im (a @ b) = (wf_im a \<and> wf_im b \<and> (\<forall>x \<in> set a. \<forall>y \<in> set b. end_of x \<le> start_of y))"
  by (auto simp: wf_im_def sorted_wrt_append)

lemma wf_im_sorted_keys: "wf_im m \<Longrightarrow> sorted_wrt (<) (map fst m)"
proof (induction m)
  case Nil
  then show ?case by simp
next
  case (Cons e m)
  then have "\<forall>x \<in> set m. fst e < fst x"
    by (fastforce simp: wf_im_Cons start_of_def end_of_def word_less_nat_alt)
  with Cons show ?case by (simp add: wf_im_Cons)
qed

lemma invariants_wf_im:
  "(I1 m \<and> I2 m \<and> I3 m \<and> ends_representable m) = wf_im m"
proof
  assume a: "I1 m \<and> I2 m \<and> I3 m \<and> ends_representable m"
  then have "sorted_wrt (\<lambda>a b. fst a < fst b) m"
    by (simp add: I3_def sorted_wrt_map)
  then have "sorted_wrt (\<lambda>a b. end_of a \<le> start_of b) m"
  proof (rule sorted_wrt_mono_rel [rotated])
    fix x y assume "x \<in> set m" "y \<in> set m" "fst x < fst y"
    with a show "end_of x \<le> start_of y" by (auto simp: I1_def)
  qed
  moreover have "\<forall>e \<in> set m. start_of e < end_of e \<and> end_of e < 2 ^ 64"
    using a by (auto simp: I2_def ends_representable_def unat_uint64_max start_of_def end_of_def
        word_less_nat_alt)
  ultimately show "wf_im m" by (simp add: wf_im_def)
next
  assume w: "wf_im m"
  have i3: "I3 m" using w by (simp add: I3_def wf_im_sorted_keys)
  have i2: "I2 m" using w by (auto simp: wf_im_def I2_def start_of_def end_of_def word_less_nat_alt)
  have er: "ends_representable m"
    using w by (auto simp: wf_im_def ends_representable_def unat_uint64_max)
  have i1: "I1 m" using w unfolding I1_def
  proof (induction m)
    case Nil
    then show ?case by simp
  next
    case (Cons e m)
    then have 1: "\<forall>x \<in> set m. end_of e \<le> start_of x" and 2: "start_of e < end_of e"
      and 3: "wf_im m" by (auto simp: wf_im_Cons)
    from 1 2 have 4: "\<forall>x \<in> set m. \<not> fst x < fst e"
      by (fastforce simp: start_of_def word_less_nat_alt)
    from Cons.IH [OF 3] 1 4 show ?case by auto
  qed
  from i1 i2 i3 er show "I1 m \<and> I2 m \<and> I3 m \<and> ends_representable m" by simp
qed

subsection \<open>The range of \<^verbatim>\<open>get_range\<close> and the loop of \<^verbatim>\<open>erase\<close>\<close>

lemma lower_bound_takeWhile: "lower_bound k m = length (takeWhile (\<lambda>e. fst e < k) m)"
  by (induction m) auto

lemma upper_bound_takeWhile: "upper_bound k m = length (takeWhile (\<lambda>e. fst e \<le> k) m)"
  by (induction m) auto

lemma insert_map_middle:
  "\<forall>x \<in> set a. fst x < k \<Longrightarrow> \<forall>y \<in> set c. k < fst y \<Longrightarrow> insert_map k v (a @ c) = a @ (k, v) # c"
proof (induction a)
  case Nil
  then show ?case by (cases c) auto
next
  case (Cons x a)
  then show ?case by auto
qed

lemma insert_range_middle:
  "sorted_wrt (<) (map fst (a @ xs @ c)) \<Longrightarrow> insert_range xs (a @ c) = a @ xs @ c"
proof (induction xs arbitrary: a)
  case Nil
  then show ?case by simp
next
  case (Cons x xs)
  have 1: "\<forall>y \<in> set a. fst y < fst x" and 2: "\<forall>y \<in> set c. fst x < fst y"
    using Cons.prems by (auto simp: sorted_wrt_append)
  have "insert_map (fst x) (snd x) (a @ c) = (a @ [x]) @ c"
    using insert_map_middle [OF 1 2] by simp
  moreover have "insert_range xs ((a @ [x]) @ c) = (a @ [x]) @ xs @ c"
    using Cons.prems by (intro Cons.IH) simp
  ultimately show ?case by simp
qed

lemma takeWhile_weaker:
  "(\<And>x. x \<in> set xs \<Longrightarrow> P x \<Longrightarrow> Q x) \<Longrightarrow>
   takeWhile Q xs = takeWhile P xs @ takeWhile Q (dropWhile P xs)"
  by (induction xs) auto

lemma dropWhile_weaker:
  "(\<And>x. x \<in> set xs \<Longrightarrow> P x \<Longrightarrow> Q x) \<Longrightarrow>
   dropWhile Q xs = dropWhile Q (dropWhile P xs)"
  by (induction xs) auto

lemma wf_im_mem: "wf_im m \<Longrightarrow> e \<in> set m \<Longrightarrow> start_of e < end_of e \<and> end_of e < 2 ^ 64"
  by (simp add: wf_im_def)

lemma wf_dropWhile_end:
  "wf_im m \<Longrightarrow> \<forall>e \<in> set (dropWhile (\<lambda>e. end_of e \<le> lo) m). lo < end_of e"
proof (induction m)
  case Nil
  then show ?case by simp
next
  case (Cons e m)
  show ?case
  proof (cases "end_of e \<le> lo")
    case True
    with Cons show ?thesis by (simp add: wf_im_Cons)
  next
    case False
    have "lo < end_of x" if "x \<in> set m" for x
      using False Cons.prems wf_im_mem [of m x] that by (fastforce simp: wf_im_Cons)
    with False show ?thesis by simp
  qed
qed

lemma wf_dropWhile_start:
  "wf_im m \<Longrightarrow> \<forall>e \<in> set (dropWhile (\<lambda>e. start_of e < hi) m). hi \<le> start_of e"
proof (induction m)
  case Nil
  then show ?case by simp
next
  case (Cons e m)
  show ?case
  proof (cases "start_of e < hi")
    case True
    with Cons show ?thesis by (simp add: wf_im_Cons)
  next
    case False
    have "hi \<le> start_of x" if "x \<in> set m" for x
      using False Cons.prems that by (fastforce simp: wf_im_Cons)
    with False show ?thesis by simp
  qed
qed

text \<open>the first iterator of get_range\<close>

lemma get_range_fst:
  assumes "wf_im m"
  shows "fst (get_range off len m) = length (takeWhile (\<lambda>e. end_of e \<le> unat off) m)"
  using assms
proof (induction m)
  case Nil
  then show ?case by (simp add: get_range_def)
next
  case (Cons e m)
  then have wm: "wf_im m" and se: "start_of e < end_of e" and ee: "end_of e < 2 ^ 64"
    and nx: "\<forall>x \<in> set m. end_of e \<le> start_of x" by (auto simp: wf_im_Cons)
  have IH: "fst (get_range off len m) = length (takeWhile (\<lambda>e. end_of e \<le> unat off) m)"
    using Cons.IH wm by simp
  have ue: "unat (fst e + fst (snd e)) = end_of e"
    using ee by (simp add: end_of_def unat_add_lem [THEN iffD1])
  have cond: "(fst e + fst (snd e) \<le> off) = (end_of e \<le> unat off)"
    by (simp add: word_le_nat_alt ue)
  show ?case
  proof (cases "off < fst e")
    case True
    then have "unat off < start_of e" by (simp add: start_of_def word_less_nat_alt)
    with se have "\<not> end_of e \<le> unat off" by simp
    with True show ?thesis by (simp add: get_range_def cond)
  next
    case False
    show ?thesis
    proof (cases "upper_bound off m")
      case 0
      have "takeWhile (\<lambda>e. end_of e \<le> unat off) m = []"
      proof (cases m)
        case Nil
        then show ?thesis by simp
      next
        case (Cons x xs)
        with 0 have "off < fst x" by (simp split: if_splits)
        then have "unat off < start_of x" by (simp add: start_of_def word_less_nat_alt)
        moreover have "start_of x < end_of x" using wm Cons by (simp add: wf_im_Cons)
        ultimately show ?thesis using Cons by simp
      qed
      with False 0 show ?thesis by (simp add: get_range_def cond)
    next
      case (Suc j)
      then obtain x xs where m: "m = x # xs" and x: "\<not> off < fst x"
        by (cases m) (auto split: if_splits)
      from x have "start_of x \<le> unat off" by (simp add: start_of_def word_less_nat_alt)
      moreover have "end_of e \<le> start_of x" using nx m by simp
      ultimately have le: "end_of e \<le> unat off" by simp
      have "fst (get_range off len (e # m)) = Suc (fst (get_range off len m))"
        using False Suc by (simp add: get_range_def Let_def)
      with IH le show ?thesis by simp
    qed
  qed
qed

lemma get_range_snd:
  assumes "unat off + unat len < 2 ^ 64"
  shows "snd (get_range off len m) = length (takeWhile (\<lambda>e. start_of e < unat off + unat len) m)"
proof -
  have "unat (off + len) = unat off + unat len"
    using assms by (simp add: unat_add_lem [THEN iffD1])
  then show ?thesis
    by (simp add: get_range_def Let_def lower_bound_takeWhile word_less_nat_alt start_of_def)
qed

lemma erase_loop_eq:
  "i \<le> lst \<Longrightarrow> lst \<le> length m \<Longrightarrow>
   erase_loop s off len m i lst acc =
     Inr (acc @ concat (map (remnants s off len) (take (lst - i) (drop i m))))"
proof (induction "lst - i" arbitrary: i acc)
  case 0
  then show ?case by (simp add: erase_loop.simps)
next
  case (Suc n)
  then have lt: "i < lst" and il: "i < length m" by auto
  have n: "n = lst - (i + 1)" using Suc.hyps by simp
  have d: "take (lst - i) (drop i m) = m ! i # take (lst - (i + 1)) (drop (i + 1) m)"
    using lt il by (metis Cons_nth_drop_Suc Suc.hyps(2) Suc_eq_plus1 n take_Suc_Cons)
  have "erase_loop s off len m i lst acc =
        erase_loop s off len m (i + 1) lst (acc @ remnants s off len (m ! i))"
    using lt il by (subst erase_loop.simps) (simp add: Let_def remnants_def)
  also have "\<dots> = Inr ((acc @ remnants s off len (m ! i)) @
        concat (map (remnants s off len) (take (lst - (i + 1)) (drop (i + 1) m))))"
    using Suc.prems lt by (intro Suc.hyps(1) [OF n]) auto
  finally show ?case by (simp add: d)
qed

text \<open>word arithmetic of one entry\<close>

lemma entry_arith:
  assumes "end_of e < 2 ^ 64" and "unat off + unat len < 2 ^ 64"
  shows "(fst e < off) = (start_of e < unat off)"
    and "(off + len < fst e + fst (snd e)) = (unat off + unat len < end_of e)"
    and "unat (off + len) = unat off + unat len"
    and "unat (fst e + fst (snd e)) = end_of e"
    and "fst e < off \<Longrightarrow> unat (off - fst e) = unat off - start_of e"
    and "off + len < fst e + fst (snd e) \<Longrightarrow>
         unat ((fst e + fst (snd e)) - (off + len)) = end_of e - (unat off + unat len)"
proof -
  show 1: "unat (off + len) = unat off + unat len"
    using assms(2) by (simp add: unat_add_lem [THEN iffD1])
  show 2: "unat (fst e + fst (snd e)) = end_of e"
    using assms(1) by (simp add: end_of_def unat_add_lem [THEN iffD1])
  show "(fst e < off) = (start_of e < unat off)"
    by (simp add: word_less_nat_alt start_of_def)
  show "(off + len < fst e + fst (snd e)) = (unat off + unat len < end_of e)"
    by (simp add: word_less_nat_alt 1 2)
  show "fst e < off \<Longrightarrow> unat (off - fst e) = unat off - start_of e"
    by (simp add: unat_sub start_of_def word_le_nat_alt word_less_nat_alt)
  show "off + len < fst e + fst (snd e) \<Longrightarrow>
         unat ((fst e + fst (snd e)) - (off + len)) = end_of e - (unat off + unat len)"
    using 1 2 by (simp add: unat_sub word_le_nat_alt word_less_nat_alt)
qed

lemma erase_entry_eq:
  "erase_entry s off len e = (if intersects off len e then remnants s off len e else [e])"
  by (simp add: erase_entry_def remnants_def Let_def)

text \<open>the remnants of an entry lie inside the entry and outside the erased range\<close>

lemma remnants_props:
  assumes "start_of e < end_of e" "end_of e < 2 ^ 64" "unat off + unat len < 2 ^ 64"
    and "x \<in> set (remnants s off len e)" and "intersects off len e"
  shows "start_of e \<le> start_of x \<and> end_of x \<le> end_of e \<and> start_of x < end_of x \<and>
         (end_of x \<le> unat off \<or> unat off + unat len \<le> start_of x)"
proof -
  note a = entry_arith [OF assms(2,3)]
  from assms(4) consider
    (pre) "fst e < off" "x = (fst e, (off - fst e, s 0 (off - fst e) (snd (snd e))))"
  | (suf) "off + len < fst e + fst (snd e)"
      "x = (off + len, ((fst e + fst (snd e)) - (off + len),
             s (fst (snd e) - ((fst e + fst (snd e)) - (off + len)))
               ((fst e + fst (snd e)) - (off + len)) (snd (snd e))))"
    by (auto simp: remnants_def split: if_splits)
  then show ?thesis
  proof cases
    case pre
    have "start_of x = start_of e" using pre by (simp add: start_of_def)
    moreover have "end_of x = unat off"
      using pre a(5) [OF pre(1)] a(1) by (simp add: end_of_def start_of_def)
    ultimately show ?thesis using pre(1) a(1) assms(1,5) by (auto simp: intersects_def)
  next
    case suf
    have "start_of x = unat off + unat len" using suf a(3) by (simp add: start_of_def)
    moreover have "end_of x = end_of e"
      using suf a(6) [OF suf(1)] a(2,3) by (simp add: end_of_def)
    ultimately show ?thesis using suf(1) a(2) assms(1,5) by (auto simp: intersects_def)
  qed
qed

lemma wf_im_remnants:
  assumes "start_of e < end_of e" "end_of e < 2 ^ 64" "unat off + unat len < 2 ^ 64"
    and "intersects off len e"
  shows "wf_im (remnants s off len e)"
proof -
  note a = entry_arith [OF assms(2,3)]
  let ?p = "(fst e, (off - fst e, s 0 (off - fst e) (snd (snd e))))"
  let ?q = "(off + len, ((fst e + fst (snd e)) - (off + len),
             s (fst (snd e) - ((fst e + fst (snd e)) - (off + len)))
               ((fst e + fst (snd e)) - (off + len)) (snd (snd e))))"
  have p: "start_of ?p = start_of e \<and> end_of ?p = unat off" if "fst e < off"
    using that a(5) [OF that] a(1) by (simp add: end_of_def start_of_def)
  have q: "start_of ?q = unat off + unat len \<and> end_of ?q = end_of e"
    if "off + len < fst e + fst (snd e)"
    using that a(6) [OF that] a(2,3) by (simp add: end_of_def start_of_def)
  show ?thesis
    using p q a(1,2) assms(1,2,3)
    by (auto simp: remnants_def wf_im_Cons wf_im_Nil)
qed

lemma wf_im_erase_entry:
  assumes "start_of e < end_of e" "end_of e < 2 ^ 64" "unat off + unat len < 2 ^ 64"
  shows "wf_im (erase_entry s off len e)"
  using assms wf_im_remnants [OF assms, of s]
  by (simp add: erase_entry_eq wf_im_Cons wf_im_Nil)

lemma erase_entry_inside:
  assumes "start_of e < end_of e" "end_of e < 2 ^ 64" "unat off + unat len < 2 ^ 64"
    and "x \<in> set (erase_entry s off len e)"
  shows "start_of e \<le> start_of x \<and> end_of x \<le> end_of e \<and> \<not> intersects off len x"
proof (cases "intersects off len e")
  case True
  with assms remnants_props [OF assms(1,2,3) _ True, of x s] show ?thesis
    by (auto simp: erase_entry_eq intersects_def)
next
  case False
  with assms show ?thesis by (simp add: erase_entry_eq)
qed

lemma wf_im_concat:
  assumes "wf_im m"
    and "\<And>e. e \<in> set m \<Longrightarrow> wf_im (f e)"
    and "\<And>e x. e \<in> set m \<Longrightarrow> x \<in> set (f e) \<Longrightarrow> start_of e \<le> start_of x \<and> end_of x \<le> end_of e"
  shows "wf_im (concat (map f m))"
  using assms
proof (induction m)
  case Nil
  then show ?case by (simp add: wf_im_Nil)
next
  case (Cons e m)
  have 1: "wf_im (concat (map f m))"
    using Cons.prems by (intro Cons.IH) (auto simp: wf_im_Cons)
  have 2: "end_of x \<le> start_of y" if "x \<in> set (f e)" "e' \<in> set m" "y \<in> set (f e')" for x y e'
  proof -
    have "end_of x \<le> end_of e" using Cons.prems(3) [of e x] that by simp
    also have "\<dots> \<le> start_of e'" using Cons.prems(1) that by (simp add: wf_im_Cons)
    also have "\<dots> \<le> start_of y" using Cons.prems(3) [of e' y] that by simp
    finally show ?thesis .
  qed
  from 1 2 Cons.prems(2) [of e] show ?case by (auto simp: wf_im_append)
qed

lemma wf_im_erased:
  assumes "wf_im m" "unat off + unat len < 2 ^ 64"
  shows "wf_im (concat (map (erase_entry s off len) m))"
proof (rule wf_im_concat [OF assms(1)])
  fix e assume "e \<in> set m"
  with assms wf_im_mem [of m e] show "wf_im (erase_entry s off len e)"
    by (simp add: wf_im_erase_entry)
next
  fix e x assume "e \<in> set m" "x \<in> set (erase_entry s off len e)"
  with assms wf_im_mem [of m e] erase_entry_inside [of e off len x s]
  show "start_of e \<le> start_of x \<and> end_of x \<le> end_of e" by simp
qed

lemma erased_disjoint:
  assumes "wf_im m" "unat off + unat len < 2 ^ 64"
    and "x \<in> set (concat (map (erase_entry s off len) m))"
  shows "\<not> intersects off len x"
proof -
  from assms(3) obtain e where e: "e \<in> set m" "x \<in> set (erase_entry s off len e)" by auto
  with assms wf_im_mem [of m e] erase_entry_inside [of e off len x s] show ?thesis by simp
qed

lemma concat_map_single: "(\<And>x. x \<in> set xs \<Longrightarrow> f x = [x]) \<Longrightarrow> concat (map f xs) = xs"
  by (induction xs) auto

lemma erase_eq:
  assumes wf: "wf_im m" and len: "len \<noteq> 0" and nw: "unat off + unat len < 2 ^ 64"
  shows "erase s off len m = Inr (concat (map (erase_entry s off len) m))"
proof -
  define lo hi where "lo = unat off" and "hi = unat off + unat len"
  define P Q :: "64 word \<times> 64 word \<times> 'a \<Rightarrow> bool"
    where "P = (\<lambda>e. end_of e \<le> lo)" and "Q = (\<lambda>e. start_of e < hi)"
  define A D B C where "A = takeWhile P m" and "D = dropWhile P m"
    and "B = takeWhile Q D" and "C = dropWhile Q D"
  have lohi: "lo < hi" using len by (simp add: lo_def hi_def unat_gt_0)
  have m: "m = A @ B @ C" by (simp add: A_def B_def C_def D_def)
  have PQ: "Q x" if "x \<in> set m" "P x" for x
    using that wf_im_mem [OF wf that(1)] lohi by (simp add: P_def Q_def)
  have F: "fst (get_range off len m) = length A"
    using get_range_fst [OF wf] by (simp add: A_def P_def lo_def)
  have "takeWhile Q m = A @ B"
    using takeWhile_weaker [of m P Q] PQ by (simp add: A_def B_def D_def)
  then have L: "snd (get_range off len m) = length A + length B"
    using get_range_snd [OF nw, of m] by (simp add: Q_def hi_def)
  have "wf_im (A @ D)" using wf by (simp add: A_def D_def)
  then have wfD: "wf_im D" by (simp add: wf_im_append)
  have inA: "\<not> intersects off len e" if "e \<in> set A" for e
    using that set_takeWhileD [of e P m] by (auto simp: A_def P_def intersects_def lo_def)
  have inB: "intersects off len e" if "e \<in> set B" for e
  proof -
    have "e \<in> set D" "Q e" using that set_takeWhileD [of e Q D] by (auto simp: B_def)
    moreover have "lo < end_of e" using wf_dropWhile_end [OF wf, of lo] \<open>e \<in> set D\<close>
      by (simp add: D_def P_def)
    ultimately show ?thesis by (simp add: intersects_def Q_def lo_def hi_def)
  qed
  have inC: "\<not> intersects off len e" if "e \<in> set C" for e
    using that wf_dropWhile_start [OF wfD, of hi] by (auto simp: C_def Q_def intersects_def hi_def)
  have cA: "concat (map (erase_entry s off len) A) = A"
    by (rule concat_map_single) (simp add: erase_entry_eq inA)
  have cC: "concat (map (erase_entry s off len) C) = C"
    by (rule concat_map_single) (simp add: erase_entry_eq inC)
  have cB: "map (erase_entry s off len) B = map (remnants s off len) B"
    by (rule map_cong) (simp_all add: erase_entry_eq inB)
  have res: "concat (map (erase_entry s off len) m) = A @ concat (map (remnants s off len) B) @ C"
    by (subst m) (simp add: cA cC cB)
  have "sorted_wrt (<) (map fst (concat (map (erase_entry s off len) m)))"
    using wf_im_erased [OF wf nw] by (rule wf_im_sorted_keys)
  then have ins: "insert_range (concat (map (remnants s off len) B)) (A @ C) =
      A @ concat (map (remnants s off len) B) @ C"
    unfolding res by (rule insert_range_middle)
  have tk: "take (length B) (drop (length A) m) = B" by (subst m) simp
  have loop: "erase_loop s off len m (length A) (length A + length B) [] =
      Inr (concat (map (remnants s off len) B))"
  proof -
    have "length A + length B \<le> length m" by (subst m) simp
    from erase_loop_eq [OF _ this, of "length A" s off len "[]"] tk show ?thesis by simp
  qed
  have er: "erase_range (length A) (length A + length B) m = A @ C"
    by (subst m) (simp add: erase_range_def)
  show ?thesis
    using len by (simp add: erase_def Let_def F L loop er ins res)
qed

subsection \<open>\<^verbatim>\<open>erase\<close> and \<^verbatim>\<open>insert\<close>\<close>

lemma set_insert_map_fresh:
  "k \<notin> fst ` set m \<Longrightarrow> set (insert_map k v m) = insert (k, v) (set m)"
  by (induction m) auto

lemma wf_im_insert_map:
  assumes "wf_im m" and "\<forall>x \<in> set m. \<not> intersects off len x"
    and "len \<noteq> 0" and "unat off + unat len < 2 ^ 64"
  shows "wf_im (insert_map off (len, v) m) \<and>
         set (insert_map off (len, v) m) = insert (off, (len, v)) (set m) \<and>
         filter (intersects off len) (insert_map off (len, v) m) = [(off, (len, v))]"
  using assms(1,2)
proof (induction m)
  case Nil
  then show ?case using assms(3,4)
    by (simp add: wf_im_Cons wf_im_Nil start_of_def end_of_def intersects_def unat_gt_0)
next
  case (Cons e m)
  have new: "start_of (off, (len, v)) = unat off" "end_of (off, (len, v)) = unat off + unat len"
    "unat off < unat off + unat len"
    using assms(3) by (simp_all add: start_of_def end_of_def unat_gt_0)
  have inew: "intersects off len (off, (len, v))"
    using new by (simp add: intersects_def)
  from Cons.prems have wm: "wf_im m" and se: "start_of e < end_of e" and ee: "end_of e < 2 ^ 64"
    and nx: "\<forall>x \<in> set m. end_of e \<le> start_of x" and ne: "\<not> intersects off len e"
    and nm: "\<forall>x \<in> set m. \<not> intersects off len x"
    by (auto simp: wf_im_Cons)
  note IH = Cons.IH [OF wm nm]
  have nofilt: "filter (intersects off len) (e # m) = []"
    using ne nm by (simp add: filter_empty_conv)
  consider (lt) "off < fst e" | (eq) "off = fst e" | (gt) "fst e < off" by fastforce
  then show ?case
  proof cases
    case lt
    then have 1: "unat off < start_of e" by (simp add: start_of_def word_less_nat_alt)
    with ne se have 2: "unat off + unat len \<le> start_of e" by (simp add: intersects_def)
    have 3: "unat off + unat len \<le> start_of x" if "x \<in> set m" for x
      using nx se 2 that by fastforce
    show ?thesis using lt 2 3 new assms(4) Cons.prems(1) inew nofilt
      by (simp add: wf_im_Cons)
  next
    case eq
    then have "start_of e = unat off" by (simp add: start_of_def)
    with ne se new have False by (simp add: intersects_def)
    then show ?thesis ..
  next
    case gt
    then have 1: "start_of e < unat off" by (simp add: start_of_def word_less_nat_alt)
    with ne new have 2: "end_of e \<le> unat off" by (simp add: intersects_def)
    from gt have ins: "insert_map off (len, v) (e # m) = e # insert_map off (len, v) m" by auto
    show ?thesis unfolding ins using IH 2 new se ee nx ne
      by (auto simp: wf_im_Cons)
  qed
qed

text \<open>
  Claim C5, amended.  On a map that satisfies I1, I2 and I3 and whose entries end at or below
  \<open>2 ^ 64 - 1\<close>, \<^verbatim>\<open>erase(off, len)\<close> with \<open>len > 0\<close> and \<open>off + len \<le> 2 ^ 64 - 1\<close> replaces
  every entry by what \<open>erase_entry\<close> leaves of it: an entry that intersects \<open>[off, off + len)\<close>
  is removed and leaves its prefix remnant when it starts before \<open>off\<close> and its suffix remnant
  when it ends after \<open>off + len\<close>, with the values the splitter computes; every other entry
  stays as it is.
\<close>

theorem erase_splits:
  assumes "I1 m" "I2 m" "I3 m" "ends_representable m"
    and "0 < len" and "unat off + unat len \<le> unat uint64_max"
  shows "erase s off len m = Inr (concat (map (erase_entry s off len) m))"
proof -
  have "wf_im m" using assms invariants_wf_im [of m] by simp
  moreover have "len \<noteq> 0" using assms(5) by auto
  moreover have "unat off + unat len < 2 ^ 64" using assms(6) by (simp add: unat_uint64_max)
  ultimately show ?thesis by (rule erase_eq)
qed

lemma insert_im_eq:
  assumes wf: "wf_im m" and len: "len \<noteq> 0" and nw: "unat off + unat len < 2 ^ 64"
  shows "insert_im s off len v m = Inr (insert_map off (len, v) (concat (map (erase_entry s off len) m)))"
    and "wf_im (insert_map off (len, v) (concat (map (erase_entry s off len) m)))"
    and "set (insert_map off (len, v) (concat (map (erase_entry s off len) m)))
         = insert (off, (len, v)) (\<Union>e \<in> set m. set (erase_entry s off len e))"
    and "filter (intersects off len) (insert_map off (len, v) (concat (map (erase_entry s off len) m)))
         = [(off, (len, v))]"
proof -
  let ?m' = "concat (map (erase_entry s off len) m)"
  show "insert_im s off len v m = Inr (insert_map off (len, v) ?m')"
    by (simp add: insert_im_def erase_eq [OF assms])
  have 1: "wf_im ?m'" by (rule wf_im_erased [OF wf nw])
  have 2: "\<forall>x \<in> set ?m'. \<not> intersects off len x"
    using erased_disjoint [OF wf nw] by blast
  note r = wf_im_insert_map [OF 1 2 len nw, where v = v]
  from r show "wf_im (insert_map off (len, v) ?m')" by simp
  from r show "filter (intersects off len) (insert_map off (len, v) ?m') = [(off, (len, v))]" by simp
  from r show "set (insert_map off (len, v) ?m') = insert (off, (len, v)) (\<Union>e \<in> set m. set (erase_entry s off len e))"
    by simp
qed

text \<open>
  Claim C4, amended.  On a map that satisfies I1, I2 and I3 and whose entries end at or below
  \<open>2 ^ 64 - 1\<close>, \<^verbatim>\<open>insert(off, len, v)\<close> with \<open>len > 0\<close> and \<open>off + len \<le> 2 ^ 64 - 1\<close> is
  \<^verbatim>\<open>erase(off, len)\<close> followed by the insertion of \<open>(off, len, v)\<close>.  Afterwards the only entry
  that intersects \<open>[off, off + len)\<close> is \<open>(off, len, v)\<close>, and the other entries are what
  \<open>erase_entry\<close> leaves of the old ones: the remnants of those that intersected the range, and
  the others unchanged.
\<close>

theorem insert_last_writer_wins:
  assumes "I1 m" "I2 m" "I3 m" "ends_representable m"
    and "0 < len" and "unat off + unat len \<le> unat uint64_max"
  shows "\<exists>m1 m2. erase s off len m = Inr m1 \<and> m2 = insert_map off (len, v) m1 \<and>
           insert_im s off len v m = Inr m2 \<and>
           filter (intersects off len) m2 = [(off, (len, v))] \<and>
           set m2 = insert (off, (len, v)) (\<Union>e \<in> set m. set (erase_entry s off len e))"
proof -
  have wf: "wf_im m" using assms invariants_wf_im [of m] by simp
  have len: "len \<noteq> 0" using assms(5) by auto
  have nw: "unat off + unat len < 2 ^ 64" using assms(6) by (simp add: unat_uint64_max)
  show ?thesis
    using erase_eq [OF wf len nw, where s = s] insert_im_eq [OF wf len nw, where s = s and v = v] by simp
qed

lemma apply_op_wf:
  assumes "wf_im m" "op_in_range x"
  shows "\<exists>m'. apply_op s x m = Inr m' \<and> wf_im m'"
proof (cases x)
  case (Insert_op off len v)
  with assms have len: "len \<noteq> 0" and nw: "unat off + unat len < 2 ^ 64"
    by (auto simp: unat_uint64_max)
  show ?thesis using insert_im_eq(1,2) [OF assms(1) len nw, where s = s and v = v] Insert_op by simp
next
  case (Erase_op off len)
  with assms have nw: "unat off + unat len < 2 ^ 64" by (simp add: unat_uint64_max)
  show ?thesis
  proof (cases "len = 0")
    case True
    with Erase_op assms(1) show ?thesis by (simp add: erase_def)
  next
    case False
    with Erase_op erase_eq [OF assms(1) False nw, where s = s] wf_im_erased [OF assms(1) nw, where s = s]
    show ?thesis by simp
  qed
qed

lemma run_ops_wf:
  "wf_im m \<Longrightarrow> list_all op_in_range ops \<Longrightarrow> \<exists>m'. run_ops s ops m = Inr m' \<and> wf_im m'"
proof (induction ops arbitrary: m)
  case Nil
  then show ?case by simp
next
  case (Cons x xs)
  then obtain m1 where m1: "apply_op s x m = Inr m1" "wf_im m1"
    using apply_op_wf [of m x s] by auto
  with Cons.IH [of m1] Cons.prems show ?case by simp
qed

text \<open>
  Claim C3, amended.  Run from the empty map, a sequence of insertions with \<open>len > 0\<close> and of
  erasures, each with \<open>off + len \<le> 2 ^ 64 - 1\<close>, never fails, and after every operation
  I1, I2 and I3 hold.
\<close>

theorem invariants_hold:
  assumes "list_all op_in_range ops"
  shows "\<forall>n \<le> length ops. \<exists>m. run_ops s (take n ops) [] = Inr m \<and> I1 m \<and> I2 m \<and> I3 m"
proof (intro allI impI)
  fix n assume "n \<le> length ops"
  have "list_all op_in_range (take n ops)"
    using assms by (auto simp: list_all_iff dest: in_set_takeD)
  from run_ops_wf [OF wf_im_Nil this, where s = s]
  show "\<exists>m. run_ops s (take n ops) [] = Inr m \<and> I1 m \<and> I2 m \<and> I3 m"
    using invariants_wf_im by blast
qed

lemmas eval_im = insert_im_def erase_def get_range_def erase_loop.simps erase_range_def
  splitter_test_def substr_of_def

lemmas eval_inv = I1_def I2_def I3_def ends_representable_def start_of_def end_of_def
  uint64_max_def intersects_def

theorem erase_splits_witness:
  "I1 [(0, (5, ''AAAAA'')), (5, (5, ''BBBBB'')), (10, (5, ''CCCCC''))] \<and>
   I2 [(0, (5, ''AAAAA'')), (5, (5, ''BBBBB'')), (10, (5, ''CCCCC''))] \<and>
   I3 [(0, (5, ''AAAAA'')), (5, (5, ''BBBBB'')), (10, (5, ''CCCCC''))] \<and>
   ends_representable [(0, (5, ''AAAAA'')), (5, (5, ''BBBBB'')), (10, (5, ''CCCCC''))] \<and>
   (0 :: 64 word) < 5 \<and> unat (3 :: 64 word) + unat (5 :: 64 word) \<le> unat uint64_max \<and>
   erase splitter_test 3 5 [(0, (5, ''AAAAA'')), (5, (5, ''BBBBB'')), (10, (5, ''CCCCC''))] =
     Inr [(0, (3, ''AAA'')), (8, (2, ''BB'')), (10, (5, ''CCCCC''))]"
proof -
  let ?m = "[(0 :: 64 word, (5 :: 64 word, ''AAAAA'')), (5, (5, ''BBBBB'')), (10, (5, ''CCCCC''))]"
  have h: "I1 ?m" "I2 ?m" "I3 ?m" "ends_representable ?m" "(0 :: 64 word) < 5"
    "unat (3 :: 64 word) + unat (5 :: 64 word) \<le> unat uint64_max"
    by (simp_all add: eval_inv)
  have "concat (map (erase_entry splitter_test 3 5) ?m) =
      [(0, (3, ''AAA'')), (8, (2, ''BB'')), (10, (5, ''CCCCC''))]"
    by (simp add: erase_entry_def eval_inv splitter_test_def substr_of_def)
  with erase_splits [OF h, of splitter_test] h show ?thesis by simp
qed

text \<open>
  Claim C5 as stated fails when the end of an entry wraps around: the entry
  \<open>(5, 2 ^ 64 - 3, v)\<close> intersects \<open>[3, 7)\<close>, the map satisfies I1, I2 and I3, and
  \<^verbatim>\<open>erase(3, 4)\<close> leaves the entry in place, because \<open>5 + (2 ^ 64 - 3)\<close> is \<open>2\<close> in 64 bits and
  \<^verbatim>\<open>get_range\<close> steps over the entry.
\<close>

theorem erase_wraps_counterexample:
  "I1 [(5, (18446744073709551613, ''v''))] \<and> I2 [(5, (18446744073709551613, ''v''))] \<and>
   I3 [(5, (18446744073709551613, ''v''))] \<and> (0 :: 64 word) < 4 \<and>
   intersects 3 4 (5, (18446744073709551613, ''v'')) \<and>
   erase splitter_test 3 4 [(5, (18446744073709551613, ''v''))] =
     Inr [(5, (18446744073709551613, ''v''))]"
  by (simp add: eval_inv eval_im)

text \<open>
  Claim C4 as stated fails when the end of an entry wraps around: after \<^verbatim>\<open>insert(3, 4, w)\<close>
  the entry \<open>(5, 2 ^ 64 - 3, v)\<close>, which intersects \<open>[3, 7)\<close>, is still stored unchanged
  beside \<open>(3, 4, w)\<close>.
\<close>

theorem insert_wraps_counterexample:
  "I1 [(5, (18446744073709551613, ''v''))] \<and> I2 [(5, (18446744073709551613, ''v''))] \<and>
   I3 [(5, (18446744073709551613, ''v''))] \<and> (0 :: 64 word) < 4 \<and>
   intersects 3 4 (5, (18446744073709551613, ''v'')) \<and>
   insert_im splitter_test 3 4 ''wwww'' [(5, (18446744073709551613, ''v''))] =
     Inr [(3, (4, ''wwww'')), (5, (18446744073709551613, ''v''))]"
  by (simp add: eval_inv eval_im)

text \<open>
  Claim C3 as stated fails when \<open>off + len\<close> wraps around: \<^verbatim>\<open>insert(5, 2 ^ 64 - 3, v)\<close> and
  then \<^verbatim>\<open>insert(3, 4, w)\<close>, both with \<open>len > 0\<close>, leave the entries \<open>(3, 4, w)\<close> and
  \<open>(5, 2 ^ 64 - 3, v)\<close>, and \<open>3 + 4 \<le> 5\<close> is false.
\<close>

theorem invariants_wrap_counterexample:
  "run_ops splitter_test [Insert_op 5 18446744073709551613 ''v'', Insert_op 3 4 ''wwww''] [] =
     Inr [(3, (4, ''wwww'')), (5, (18446744073709551613, ''v''))] \<and>
   (0 :: 64 word) < 18446744073709551613 \<and> (0 :: 64 word) < 4 \<and>
   \<not> I1 [(3, (4, ''wwww'')), (5, (18446744073709551613, ''v''))] \<and>
   (3 :: 64 word) < 5 \<and> \<not> ((3 :: 64 word) + 4 \<le> 5)"
  by (simp add: eval_inv eval_im)

theorem insert_last_writer_wins_witness:
  "I1 [(0, (5, ''AAAAA'')), (10, (5, ''CCCCC''))] \<and> I2 [(0, (5, ''AAAAA'')), (10, (5, ''CCCCC''))] \<and>
   I3 [(0, (5, ''AAAAA'')), (10, (5, ''CCCCC''))] \<and>
   ends_representable [(0, (5, ''AAAAA'')), (10, (5, ''CCCCC''))] \<and>
   (0 :: 64 word) < 7 \<and> unat (4 :: 64 word) + unat (7 :: 64 word) \<le> unat uint64_max \<and>
   insert_im splitter_test 4 7 ''BBBBBBB'' [(0, (5, ''AAAAA'')), (10, (5, ''CCCCC''))] =
     Inr [(0, (4, ''AAAA'')), (4, (7, ''BBBBBBB'')), (11, (4, ''CCCC''))] \<and>
   filter (intersects 4 7) [(0, (4, ''AAAA'')), (4, (7, ''BBBBBBB'')), (11, (4, ''CCCC''))] =
     [(4, (7, ''BBBBBBB''))]"
proof -
  let ?m = "[(0 :: 64 word, (5 :: 64 word, ''AAAAA'')), (10, (5, ''CCCCC''))]"
  have h: "I1 ?m" "I2 ?m" "I3 ?m" "ends_representable ?m" "(0 :: 64 word) < 7"
    "unat (4 :: 64 word) + unat (7 :: 64 word) \<le> unat uint64_max"
    by (simp_all add: eval_inv)
  have e: "insert_im splitter_test 4 7 ''BBBBBBB'' ?m =
     Inr [(0, (4, ''AAAA'')), (4, (7, ''BBBBBBB'')), (11, (4, ''CCCC''))]"
    by (simp add: eval_im)
  from insert_last_writer_wins [OF h, of splitter_test "''BBBBBBB''"]
  obtain m2 where m2: "insert_im splitter_test 4 7 ''BBBBBBB'' ?m = Inr m2"
    "filter (intersects 4 7) m2 = [(4, (7, ''BBBBBBB''))]"
    by blast
  from m2(1) e have "m2 = [(0, (4, ''AAAA'')), (4, (7, ''BBBBBBB'')), (11, (4, ''CCCC''))]"
    by simp
  with m2(2) e h show ?thesis by simp
qed

theorem invariants_hold_witness:
  "list_all op_in_range [Insert_op 0 5 ''AAAAA'', Insert_op 5 5 ''BBBBB'', Insert_op 10 5 ''CCCCC'',
      Erase_op 3 5] \<and>
   run_ops splitter_test [Insert_op 0 5 ''AAAAA'', Insert_op 5 5 ''BBBBB'', Insert_op 10 5 ''CCCCC'',
      Erase_op 3 5] [] = Inr [(0, (3, ''AAA'')), (8, (2, ''BB'')), (10, (5, ''CCCCC''))] \<and>
   I1 [(0, (3, ''AAA'')), (8, (2, ''BB'')), (10, (5, ''CCCCC''))] \<and>
   I2 [(0, (3, ''AAA'')), (8, (2, ''BB'')), (10, (5, ''CCCCC''))] \<and>
   I3 [(0, (3, ''AAA'')), (8, (2, ''BB'')), (10, (5, ''CCCCC''))]"
proof -
  let ?ops = "[Insert_op 0 5 ''AAAAA'', Insert_op 5 5 ''BBBBB'', Insert_op 10 5 ''CCCCC'', Erase_op 3 5]"
  have h: "list_all op_in_range ?ops" by (simp add: uint64_max_def)
  have e: "run_ops splitter_test ?ops [] = Inr [(0, (3, ''AAA'')), (8, (2, ''BB'')), (10, (5, ''CCCCC''))]"
    by (simp add: eval_im)
  from invariants_hold [OF h, of splitter_test, THEN spec, of 4]
  obtain m where m: "run_ops splitter_test ?ops [] = Inr m" "I1 m" "I2 m" "I3 m"
    by auto
  from m(1) e have "m = [(0, (3, ''AAA'')), (8, (2, ''BB'')), (10, (5, ''CCCCC''))]"
    by simp
  with m e h show ?thesis by simp
qed

subsection \<open>Empty ranges\<close>

lemma length_insert_map_fresh:
  "k \<notin> fst ` set m \<Longrightarrow> length (insert_map k v m) = Suc (length m)"
  by (induction m) auto

text \<open>
  Claim C10.  \<^verbatim>\<open>erase(off, 0)\<close> returns the map unchanged.  \<^verbatim>\<open>insert(off, 0, v)\<close> is not a no-op:
  the erase inside it returns at once, and when no entry starts at \<open>off\<close> the entry
  \<open>(off, 0, v)\<close> is stored, so that the map has one entry more, is not empty and violates I2.  On
  the empty map, \<^verbatim>\<open>insert(5, 0, v)\<close> leaves the single entry \<open>(5, 0, v)\<close>: \<^verbatim>\<open>empty()\<close> is false
  and \<^verbatim>\<open>ext_count()\<close> is 1.
\<close>

theorem zero_length_insert:
  "erase s off 0 m = Inr m \<and>
   (find_map off m = None \<longrightarrow>
      (\<exists>m'. insert_im s off 0 v m = Inr m' \<and> find_map off m' = Some (0, v) \<and>
            ext_count m' = ext_count m + 1 \<and> \<not> empty_im m' \<and> \<not> I2 m')) \<and>
   insert_im s 5 0 v [] = Inr [(5, (0, v))] \<and> \<not> empty_im [(5, (0 :: 64 word, v))] \<and>
   ext_count [(5, (0 :: 64 word, v))] = 1 \<and> \<not> I2 [(5, (0, v))]"
proof -
  have e: "erase s off 0 m = Inr m" by (simp add: erase_def)
  have "\<exists>m'. insert_im s off 0 v m = Inr m' \<and> find_map off m' = Some (0, v) \<and>
            ext_count m' = ext_count m + 1 \<and> \<not> empty_im m' \<and> \<not> I2 m'"
    if "find_map off m = None"
  proof -
    from that have fresh: "off \<notin> fst ` set m" by (simp add: find_map_def map_of_eq_None_iff)
    have "(off, (0, v)) \<in> set (insert_map off (0, v) m)"
      by (simp add: set_insert_map_fresh [OF fresh])
    then have "\<not> I2 (insert_map off (0, v) m)" and "insert_map off (0, v) m \<noteq> []"
      by (force simp: I2_def)+
    moreover have "find_map off (insert_map off (0, v) m) = Some (0, v)"
      using that by (simp add: find_map_def map_of_insert_map)
    ultimately show ?thesis
      by (simp add: insert_im_def e ext_count_def empty_im_def length_insert_map_fresh [OF fresh])
  qed
  moreover have "insert_im s 5 0 v [] = Inr [(5, (0, v))]" by (simp add: insert_im_def erase_def)
  ultimately show ?thesis using e by (simp add: empty_im_def ext_count_def I2_def)
qed

theorem zero_length_insert_witness:
  "find_map 7 [(5 :: 64 word, (3 :: 64 word, ''abc''))] = None \<and>
   insert_im splitter_test 7 0 ''x'' [(5, (3, ''abc''))] = Inr [(5, (3, ''abc'')), (7, (0, ''x''))] \<and>
   ext_count [(5 :: 64 word, (3 :: 64 word, ''abc'')), (7, (0, ''x''))] = 2 \<and>
   \<not> I2 [(5, (3, ''abc'')), (7, (0, ''x''))]"
proof -
  let ?m = "[(5 :: 64 word, (3 :: 64 word, ''abc''))]"
  have h: "find_map 7 ?m = None" by (simp add: find_map_def)
  from zero_length_insert [of splitter_test 7 ?m "''x''"] h
  obtain m' where m': "insert_im splitter_test 7 0 ''x'' ?m = Inr m'"
    "ext_count m' = ext_count ?m + 1" "\<not> I2 m'" by auto
  have "insert_im splitter_test 7 0 ''x'' ?m = Inr [(5, (3, ''abc'')), (7, (0, ''x''))]"
    by (simp add: insert_im_def erase_def)
  with m' h show ?thesis by (simp add: ext_count_def)
qed

subsection \<open>Operations of a transaction\<close>

text \<open>
  Claim C6.  \<^verbatim>\<open>rename(target, source)\<close> fails an assertion unless \<open>source\<close> is a temp object,
  \<open>target\<close> is not, and the operation at \<open>target\<close> is \<^verbatim>\<open>is_none\<close> or \<^verbatim>\<open>is_delete\<close>.  Otherwise
  it succeeds, \<^verbatim>\<open>op_map\<close> has no entry at \<open>source\<close> afterwards, the \<^verbatim>\<open>init_type\<close> of the target is
  \<^verbatim>\<open>Rename{source}\<close>, and an operation that was stored at \<open>source\<close> is, with that \<^verbatim>\<open>init_type\<close>,
  the operation of the target.
\<close>

theorem rename_moves_source:
  assumes "t_op = at_map target ObjectOperation_default m"
  shows "(\<not> is_temp source \<or> is_temp target \<or> \<not> (is_none t_op \<or> is_delete t_op) \<longrightarrow>
            rename is_temp target source m = Inl AssertionFailed) \<and>
         (is_temp source \<and> \<not> is_temp target \<and> (is_none t_op \<or> is_delete t_op) \<longrightarrow>
            (\<exists>m'. rename is_temp target source m = Inr m' \<and> find_map source m' = None \<and>
               (\<exists>op'. find_map target m' = Some op' \<and> init_type op' = Init_Rename source \<and>
                  (\<forall>sop. find_map source m = Some sop \<longrightarrow>
                     op' = sop\<lparr>init_type := Init_Rename source\<rparr>))))"
proof (intro conjI impI)
  assume "\<not> is_temp source \<or> is_temp target \<or> \<not> (is_none t_op \<or> is_delete t_op)"
  then show "rename is_temp target source m = Inl AssertionFailed"
    using assms by (auto simp: rename_def Let_def)
next
  assume a: "is_temp source \<and> \<not> is_temp target \<and> (is_none t_op \<or> is_delete t_op)"
  then have ne: "source \<noteq> target" by auto
  show "\<exists>m'. rename is_temp target source m = Inr m' \<and> find_map source m' = None \<and>
          (\<exists>op'. find_map target m' = Some op' \<and> init_type op' = Init_Rename source \<and>
             (\<forall>sop. find_map source m = Some sop \<longrightarrow> op' = sop\<lparr>init_type := Init_Rename source\<rparr>))"
  proof (cases "find_map source m")
    case None
    with a ne assms show ?thesis
      by (auto simp: rename_def Let_def find_subscript find_assign find_erase_key)
  next
    case (Some sop)
    with a ne assms show ?thesis
      by (auto simp: rename_def Let_def find_subscript find_assign find_erase_key)
  qed
qed

lemmas eval_pgt = get_object_op_for_modify_def subscript_def at_map_def find_map_def
  is_delete_def is_none_def is_fresh_object_def ObjectOperation_default_def assign_map_def erase_key_def

theorem rename_moves_source_witness:
  "write (20 :: nat) 0 4 ''abcd'' 0 [] =
     Inr [(20, ObjectOperation_default\<lparr>buffer_updates := [(0, (4, Write ''abcd'' 0))]\<rparr>)] \<and>
   rename (\<lambda>h. 20 \<le> h) 10 20
       [(20 :: nat, ObjectOperation_default\<lparr>buffer_updates := [(0, (4, Write ''abcd'' 0))]\<rparr>)] =
     Inr [(10, ObjectOperation_default\<lparr>init_type := Init_Rename 20,
                                         buffer_updates := [(0, (4, Write ''abcd'' 0))]\<rparr>)] \<and>
   find_map 20 [(10 :: nat, ObjectOperation_default\<lparr>init_type := Init_Rename (20 :: nat),
                                         buffer_updates := [(0, (4, Write ''abcd'' 0))]\<rparr>)] = None"
proof -
  let ?m = "[(20 :: nat, ObjectOperation_default\<lparr>buffer_updates := [(0, (4, Write ''abcd'' 0))]\<rparr>)]"
  let ?t = "\<lambda>h :: nat. 20 \<le> h"
  have w: "write (20 :: nat) 0 4 ''abcd'' 0 [] = Inr ?m"
    by (simp add: write_def eval_pgt eval_im)
  have h: "?t 20 \<and> \<not> ?t 10 \<and> (is_none (at_map (10 :: nat) ObjectOperation_default ?m) \<or>
      is_delete (at_map (10 :: nat) ObjectOperation_default ?m))"
    by (simp add: eval_pgt)
  have s: "find_map 20 ?m = Some (ObjectOperation_default\<lparr>buffer_updates := [(0, (4, Write ''abcd'' 0))]\<rparr>)"
    by (simp add: find_map_def)
  from rename_moves_source [OF refl, of ?t 20 10 ?m] h s
  obtain m' where m': "rename ?t 10 20 ?m = Inr m'" "find_map 20 m' = None"
    "find_map 10 m' = Some (ObjectOperation_default\<lparr>buffer_updates := [(0, (4, Write ''abcd'' 0))],
        init_type := Init_Rename 20\<rparr>)"
    by auto
  have "rename ?t 10 20 ?m = Inr [(10, ObjectOperation_default\<lparr>init_type := Init_Rename 20,
                                        buffer_updates := [(0, (4, Write ''abcd'' 0))]\<rparr>)]"
    by (simp add: rename_def eval_pgt)
  with m' w show ?thesis by (simp add: find_map_def)
qed

text \<open>
  Claim C7.  When \<^verbatim>\<open>op_map\<close> has an operation at \<open>source\<close>, a successful
  \<^verbatim>\<open>rename(target, source)\<close> leaves at \<open>target\<close> the operation of \<open>source\<close> with \<^verbatim>\<open>init_type\<close>
  \<^verbatim>\<open>Rename{source}\<close>: nothing recorded on the target before survives, a \<^verbatim>\<open>delete_first\<close> set by
  \<^verbatim>\<open>remove(target)\<close> included.  When \<^verbatim>\<open>op_map\<close> has no operation at \<open>source\<close>, the target keeps
  its fields, \<^verbatim>\<open>delete_first\<close> included, and only \<^verbatim>\<open>init_type\<close> changes.
\<close>

theorem rename_overwrites_target:
  assumes "is_temp source" and "\<not> is_temp target"
    and "t_op = at_map target ObjectOperation_default m"
    and "is_none t_op \<or> is_delete t_op"
  shows "(\<forall>sop. find_map source m = Some sop \<longrightarrow>
            (\<exists>m' op'. rename is_temp target source m = Inr m' \<and> find_map target m' = Some op' \<and>
               op' = sop\<lparr>init_type := Init_Rename source\<rparr> \<and>
               delete_first op' = delete_first sop)) \<and>
         (find_map source m = None \<longrightarrow>
            (\<exists>m' op'. rename is_temp target source m = Inr m' \<and> find_map target m' = Some op' \<and>
               op' = t_op\<lparr>init_type := Init_Rename source\<rparr> \<and>
               delete_first op' = delete_first t_op))"
proof -
  from assms(1,2) have ne: "source \<noteq> target" by auto
  show ?thesis using assms ne
    by (auto simp: rename_def Let_def find_subscript find_assign find_erase_key)
qed

theorem rename_overwrites_target_witness:
  "remove (10 :: nat) [(20, ObjectOperation_default\<lparr>omap_header := Some ''h''\<rparr>)] =
     Inr [(10 :: nat, ObjectOperation_default\<lparr>delete_first := True\<rparr>),
          (20, ObjectOperation_default\<lparr>omap_header := Some ''h''\<rparr>)] \<and>
   rename (\<lambda>h. 20 \<le> h) 10 20
       [(10 :: nat, ObjectOperation_default\<lparr>delete_first := True\<rparr>),
        (20, ObjectOperation_default\<lparr>omap_header := Some ''h''\<rparr>)] =
     Inr [(10 :: nat, ObjectOperation_default\<lparr>init_type := Init_Rename (20 :: nat),
                                              omap_header := Some ''h''\<rparr>)] \<and>
   delete_first (ObjectOperation_default\<lparr>init_type := Init_Rename (20 :: nat),
                                          omap_header := Some ''h''\<rparr>) = False \<and>
   rename (\<lambda>h. 20 \<le> h) 10 20 [(10 :: nat, ObjectOperation_default\<lparr>delete_first := True\<rparr>)] =
     Inr [(10 :: nat, ObjectOperation_default\<lparr>init_type := Init_Rename (20 :: nat),
                                              delete_first := True\<rparr>)]"
proof -
  let ?d = "ObjectOperation_default\<lparr>delete_first := True\<rparr> :: nat ObjectOperation"
  let ?s = "ObjectOperation_default\<lparr>omap_header := Some ''h''\<rparr> :: nat ObjectOperation"
  let ?t = "\<lambda>h :: nat. 20 \<le> h"
  have r: "remove (10 :: nat) [(20, ?s)] = Inr [(10 :: nat, ?d), (20, ?s)]"
    by (simp add: remove_def eval_pgt)
  have h1: "?t 20" "\<not> ?t 10" by simp_all
  have h2: "is_none (at_map (10 :: nat) ObjectOperation_default [(10, ?d), (20, ?s)]) \<or>
            is_delete (at_map (10 :: nat) ObjectOperation_default [(10, ?d), (20, ?s)])"
    and h3: "is_none (at_map (10 :: nat) ObjectOperation_default [(10, ?d)]) \<or>
            is_delete (at_map (10 :: nat) ObjectOperation_default [(10, ?d)])"
    by (simp_all add: eval_pgt)
  have f1: "find_map (20 :: nat) [(10, ?d), (20, ?s)] = Some ?s"
    and f2: "find_map (20 :: nat) [(10, ?d)] = None"
    by (simp_all add: find_map_def)
  from rename_overwrites_target [of ?t 20 10, OF h1 refl h2] f1
  obtain m1 where m1: "rename ?t 10 20 [(10, ?d), (20, ?s)] = Inr m1"
    "find_map 10 m1 = Some (?s\<lparr>init_type := Init_Rename 20\<rparr>)"
    by blast
  from rename_overwrites_target [of ?t 20 10, OF h1 refl h3] f2
  obtain m2 where m2: "rename ?t 10 20 [(10, ?d)] = Inr m2"
    by blast
  have e1: "rename ?t 10 20 [(10, ?d), (20, ?s)] =
      Inr [(10, ObjectOperation_default\<lparr>init_type := Init_Rename 20, omap_header := Some ''h''\<rparr>)]"
    by (simp add: rename_def eval_pgt)
  have e2: "rename ?t 10 20 [(10, ?d)] =
      Inr [(10, ObjectOperation_default\<lparr>init_type := Init_Rename 20, delete_first := True\<rparr>)]"
    by (simp add: rename_def eval_pgt)
  from r e1 e2 m1 m2 show ?thesis by (simp add: ObjectOperation_default_def)
qed

text \<open>
  Claim C8.  When the operation at \<open>hoid\<close> is not \<^verbatim>\<open>is_delete\<close>, \<^verbatim>\<open>omap_clear(hoid)\<close> sets
  \<^verbatim>\<open>clear_omap\<close>, empties \<^verbatim>\<open>omap_updates\<close> and resets \<^verbatim>\<open>omap_header\<close>; the other fields of that
  operation and the operations of all other objects are unchanged.
\<close>

theorem omap_clear_frame:
  assumes "op = at_map hoid ObjectOperation_default m" and "\<not> is_delete op"
  shows "\<exists>m' op'. omap_clear hoid m = Inr m' \<and> find_map hoid m' = Some op' \<and>
           clear_omap op' = True \<and> omap_updates op' = [] \<and> omap_header op' = None \<and>
           init_type op' = init_type op \<and> delete_first op' = delete_first op \<and>
           op_truncate op' = op_truncate op \<and> attr_updates op' = attr_updates op \<and>
           updated_snaps op' = updated_snaps op \<and> alloc_hint op' = alloc_hint op \<and>
           buffer_updates op' = buffer_updates op \<and>
           (\<forall>h. h \<noteq> hoid \<longrightarrow> find_map h m' = find_map h m)"
  using assms by (simp add: omap_clear_def modify_ok find_assign find_subscript)

theorem omap_clear_frame_witness:
  "\<not> is_delete (at_map (10 :: nat) ObjectOperation_default
      [(10, ObjectOperation_default\<lparr>op_truncate := Some 9, omap_updates := [(Insert, ''k'')],
                                      omap_header := Some ''h''\<rparr>),
       (11, ObjectOperation_default\<lparr>omap_header := Some ''g''\<rparr>)]) \<and>
   omap_clear (10 :: nat)
      [(10, ObjectOperation_default\<lparr>op_truncate := Some 9, omap_updates := [(Insert, ''k'')],
                                      omap_header := Some ''h''\<rparr>),
       (11, ObjectOperation_default\<lparr>omap_header := Some ''g''\<rparr>)] =
     Inr [(10, ObjectOperation_default\<lparr>clear_omap := True, op_truncate := Some 9\<rparr>),
          (11, ObjectOperation_default\<lparr>omap_header := Some ''g''\<rparr>)]"
proof -
  let ?m = "[(10 :: nat, ObjectOperation_default\<lparr>op_truncate := Some 9, omap_updates := [(Insert, ''k'')],
                                      omap_header := Some ''h''\<rparr>),
       (11, ObjectOperation_default\<lparr>omap_header := Some ''g''\<rparr>)]"
  have h: "\<not> is_delete (at_map (10 :: nat) ObjectOperation_default ?m)"
    by (simp add: eval_pgt)
  from omap_clear_frame [OF refl h] obtain m' where "omap_clear 10 ?m = Inr m'" by blast
  moreover have "omap_clear 10 ?m =
     Inr [(10, ObjectOperation_default\<lparr>clear_omap := True, op_truncate := Some 9\<rparr>),
          (11, ObjectOperation_default\<lparr>omap_header := Some ''g''\<rparr>)]"
    by (simp add: omap_clear_def eval_pgt)
  ultimately show ?thesis using h by simp
qed

text \<open>
  Claim C9.  When the operation at \<open>hoid\<close> is \<^verbatim>\<open>is_delete\<close>, every mutation that goes through
  \<^verbatim>\<open>get_object_op_for_modify\<close> fails its assertion, while \<^verbatim>\<open>create\<close> and \<^verbatim>\<open>clone\<close> on \<open>hoid\<close>
  succeed, and \<^verbatim>\<open>rename\<close> onto \<open>hoid\<close> passes its assertion on the operation: it succeeds
  exactly when its two assertions on the object ids hold.  An operation returns the new state
  or aborts; there is no error value.
\<close>

theorem deleted_op_asserts:
  assumes "find_map hoid m = Some op" and "is_delete op"
  shows "remove hoid m = Inl AssertionFailed
    \<and> update_snaps hoid snaps m = Inl AssertionFailed
    \<and> omap_clear hoid m = Inl AssertionFailed
    \<and> truncate hoid off m = Inl AssertionFailed
    \<and> setattrs hoid attrs m = Inl AssertionFailed
    \<and> setattr hoid attrname bl m = Inl AssertionFailed
    \<and> rmattr hoid attrname m = Inl AssertionFailed
    \<and> set_alloc_hint hoid object_size write_size fl m = Inl AssertionFailed
    \<and> write hoid off len bl fadvise m = Inl AssertionFailed
    \<and> zero hoid off len m = Inl AssertionFailed
    \<and> clone_range frm hoid fromoff len tooff m = Inl AssertionFailed
    \<and> omap_setkeys hoid bl m = Inl AssertionFailed
    \<and> omap_rmkeys hoid bl m = Inl AssertionFailed
    \<and> omap_setkeys_typed encode_map hoid keys_map m = Inl AssertionFailed
    \<and> omap_rmkeys_typed encode_set hoid keys_set m = Inl AssertionFailed
    \<and> omap_setheader hoid bl m = Inl AssertionFailed
    \<and> nop hoid m = Inl AssertionFailed
    \<and> (\<exists>m'. create hoid m = Inr m')
    \<and> (\<exists>m'. clone hoid source m = Inr m')
    \<and> ((\<exists>m'. rename is_temp hoid source m = Inr m') = (is_temp source \<and> \<not> is_temp hoid))
    \<and> (rename is_temp hoid source m = Inl AssertionFailed) = (\<not> (is_temp source \<and> \<not> is_temp hoid))"
  using assms
  by (simp add: modify_deleted remove_def update_snaps_def omap_clear_def truncate_def setattrs_def
      setattr_def rmattr_def set_alloc_hint_def write_def zero_def clone_range_def omap_setkeys_def
      omap_rmkeys_def omap_setkeys_typed_def omap_rmkeys_typed_def omap_setheader_def nop_def
      create_def clone_def rename_def at_map_Some Let_def split: option.splits)

theorem deleted_op_asserts_witness:
  "remove (10 :: nat) [] = Inr [(10, ObjectOperation_default\<lparr>delete_first := True\<rparr>)] \<and>
   is_delete (ObjectOperation_default\<lparr>delete_first := True\<rparr> :: nat ObjectOperation) \<and>
   write (10 :: nat) 0 4 ''abcd'' 0 [(10, ObjectOperation_default\<lparr>delete_first := True\<rparr>)] =
     Inl AssertionFailed \<and>
   nop (10 :: nat) [(10, ObjectOperation_default\<lparr>delete_first := True\<rparr>)] = Inl AssertionFailed \<and>
   create (10 :: nat) [(10, ObjectOperation_default\<lparr>delete_first := True\<rparr>)] =
     Inr [(10, ObjectOperation_default\<lparr>init_type := Init_Create, delete_first := True\<rparr>)] \<and>
   clone (10 :: nat) 11 [(10, ObjectOperation_default\<lparr>delete_first := True\<rparr>)] =
     Inr [(10, ObjectOperation_default\<lparr>init_type := Init_Clone 11, delete_first := True\<rparr>)] \<and>
   rename (\<lambda>h. 20 \<le> h) (10 :: nat) 20 [(10, ObjectOperation_default\<lparr>delete_first := True\<rparr>)] =
     Inr [(10, ObjectOperation_default\<lparr>init_type := Init_Rename 20, delete_first := True\<rparr>)]"
proof -
  let ?d = "ObjectOperation_default\<lparr>delete_first := True\<rparr> :: nat ObjectOperation"
  have h: "find_map (10 :: nat) [(10, ?d)] = Some ?d" "is_delete ?d"
    by (simp_all add: eval_pgt)
  note t = deleted_op_asserts [OF h, where is_temp = "\<lambda>h. 20 \<le> h" and source = 20
      and off = 0 and len = 4 and bl = "''abcd''" and fadvise = 0 and snaps = "{}" and attrs = "[]"
      and attrname = "''a''" and object_size = 0 and write_size = 0 and fl = 0 and frm = 11
      and fromoff = 0 and tooff = 0 and encode_map = "\<lambda>x :: bufferlist. x" and keys_map = "''k''"
      and encode_set = "\<lambda>x :: bufferlist. x" and keys_set = "''k''"]
  have w: "write (10 :: nat) 0 4 ''abcd'' 0 [(10, ?d)] = Inl AssertionFailed"
    and n: "nop (10 :: nat) [(10, ?d)] = Inl AssertionFailed"
    using t by simp_all
  have "remove (10 :: nat) [] = Inr [(10, ?d)]"
    by (simp add: remove_def eval_pgt)
  moreover have "create (10 :: nat) [(10, ?d)] =
      Inr [(10, ObjectOperation_default\<lparr>init_type := Init_Create, delete_first := True\<rparr>)]"
    by (simp add: create_def eval_pgt)
  moreover have "clone (10 :: nat) 11 [(10, ?d)] =
      Inr [(10, ObjectOperation_default\<lparr>init_type := Init_Clone 11, delete_first := True\<rparr>)]"
    by (simp add: clone_def eval_pgt)
  moreover have "rename (\<lambda>h. 20 \<le> h) (10 :: nat) 20 [(10, ?d)] =
     Inr [(10, ObjectOperation_default\<lparr>init_type := Init_Rename 20, delete_first := True\<rparr>)]"
    by (simp add: rename_def eval_pgt)
  ultimately show ?thesis using w n h(2) by simp
qed

subsection \<open>\<^verbatim>\<open>truncate\<close>\<close>

lemma erase_to_max:
  assumes "wf_im m"
  shows "\<exists>m'. erase s off (uint64_max - off) m = Inr m' \<and> wf_im m' \<and>
           (\<forall>e \<in> set m'. end_of e \<le> unat off)"
proof -
  have ub: "unat off < 2 ^ 64" using unsigned_less [of off, where ?'a = nat] by simp
  have le: "off \<le> uint64_max" using ub by (simp add: word_le_nat_alt unat_uint64_max)
  have ul: "unat (uint64_max - off) = 2 ^ 64 - 1 - unat off"
    using le by (simp add: unat_sub unat_uint64_max)
  have nw: "unat off + unat (uint64_max - off) < 2 ^ 64" using ul ub by linarith
  show ?thesis
  proof (cases "uint64_max - off = 0")
    case True
    then have "unat (uint64_max - off) = 0" by simp
    then have "unat off = 2 ^ 64 - 1" using ul ub by linarith
    moreover have "end_of e < 2 ^ 64" if "e \<in> set m" for e
      using wf_im_mem [OF assms that] by simp
    ultimately have "\<forall>e \<in> set m. end_of e \<le> unat off" by fastforce
    with True assms show ?thesis by (simp add: erase_def)
  next
    case False
    let ?m' = "concat (map (erase_entry s off (uint64_max - off)) m)"
    have e: "erase s off (uint64_max - off) m = Inr ?m'"
      by (rule erase_eq [OF assms False nw])
    have w: "wf_im ?m'" by (rule wf_im_erased [OF assms nw])
    have "end_of x \<le> unat off" if "x \<in> set ?m'" for x
    proof -
      have "\<not> intersects off (uint64_max - off) x"
        using erased_disjoint [OF assms nw that] .
      moreover have "start_of x < end_of x" "end_of x < 2 ^ 64"
        using wf_im_mem [OF w that] by simp_all
      ultimately show ?thesis using ul by (auto simp: intersects_def)
    qed
    with e w show ?thesis by blast
  qed
qed

lemma subscript_present: "find_map k m = Some v \<Longrightarrow> subscript k d m = m"
  by (simp add: subscript_def)

text \<open>
  Claim C2, amended.  Let the operation at \<open>hoid\<close> not be \<^verbatim>\<open>is_delete\<close>.  When it has a truncate
  at or above \<open>off\<close> already, \<^verbatim>\<open>truncate(hoid, off)\<close> returns at its guard and the transaction
  is unchanged: no buffer update is erased and the lower offset is not recorded.  Otherwise,
  when the buffer updates satisfy I1, I2 and I3 and end at or below \<open>2 ^ 64 - 1\<close>, the call
  succeeds, afterwards no buffer update of the operation reaches into \<open>[off, \<infinity>)\<close>, the
  truncate of the operation is \<open>off\<close> when the operation is not a fresh object and is unchanged
  when it is, and the other objects are unchanged.  So the truncate of an operation that is not
  a fresh object is the maximum of its prior value, if any, and \<open>off\<close>: raising wins, and a
  later lower truncate is dropped.
\<close>

theorem truncate_effect:
  assumes "op = at_map hoid ObjectOperation_default m" and "\<not> is_delete op"
  shows "((\<exists>t. op_truncate op = Some t \<and> off \<le> t) \<longrightarrow>
            truncate hoid off m = Inr m \<and> find_map hoid m = Some op) \<and>
         (\<not> (\<exists>t. op_truncate op = Some t \<and> off \<le> t) \<and>
          I1 (buffer_updates op) \<and> I2 (buffer_updates op) \<and> I3 (buffer_updates op) \<and>
          ends_representable (buffer_updates op) \<longrightarrow>
            (\<exists>m' op'. truncate hoid off m = Inr m' \<and> find_map hoid m' = Some op' \<and>
               (\<forall>e \<in> set (buffer_updates op'). end_of e \<le> unat off) \<and>
               (\<not> is_fresh_object op \<longrightarrow> op_truncate op' = Some off) \<and>
               (is_fresh_object op \<longrightarrow> op_truncate op' = op_truncate op) \<and>
               (\<forall>h. h \<noteq> hoid \<longrightarrow> find_map h m' = find_map h m))) \<and>
         (\<not> is_fresh_object op \<and>
          I1 (buffer_updates op) \<and> I2 (buffer_updates op) \<and> I3 (buffer_updates op) \<and>
          ends_representable (buffer_updates op) \<longrightarrow>
            (\<exists>m' op'. truncate hoid off m = Inr m' \<and> find_map hoid m' = Some op' \<and>
               op_truncate op' = Some (case op_truncate op of None \<Rightarrow> off | Some t \<Rightarrow> max t off)))"
proof -
  have guard: "truncate hoid off m = Inr m \<and> find_map hoid m = Some op"
    if g: "\<exists>t. op_truncate op = Some t \<and> off \<le> t"
  proof -
    have "find_map hoid m \<noteq> None"
    proof
      assume "find_map hoid m = None"
      then have "op = ObjectOperation_default" using assms(1) by (simp add: at_map_def)
      with g show False by (simp add: ObjectOperation_default_def)
    qed
    then obtain op0 where f: "find_map hoid m = Some op0" by auto
    then have op0: "op0 = op" using assms(1) by (simp add: at_map_def)
    from g obtain t where t: "op_truncate op = Some t" "off \<le> t" by blast
    have "truncate hoid off m = Inr (subscript hoid ObjectOperation_default m)"
      using assms t by (simp add: truncate_def modify_ok)
    with f op0 show ?thesis by (simp add: subscript_present)
  qed
  have past: "\<exists>m' op'. truncate hoid off m = Inr m' \<and> find_map hoid m' = Some op' \<and>
               (\<forall>e \<in> set (buffer_updates op'). end_of e \<le> unat off) \<and>
               (\<not> is_fresh_object op \<longrightarrow> op_truncate op' = Some off) \<and>
               (is_fresh_object op \<longrightarrow> op_truncate op' = op_truncate op) \<and>
               (\<forall>h. h \<noteq> hoid \<longrightarrow> find_map h m' = find_map h m)"
    if ng: "\<not> (\<exists>t. op_truncate op = Some t \<and> off \<le> t)"
      and inv: "I1 (buffer_updates op) \<and> I2 (buffer_updates op) \<and> I3 (buffer_updates op) \<and>
          ends_representable (buffer_updates op)"
  proof -
    have wf: "wf_im (buffer_updates op)" using inv invariants_wf_im by blast
    from erase_to_max [OF wf, of Splitter off] obtain bu where
      bu: "erase Splitter off (uint64_max - off) (buffer_updates op) = Inr bu"
        "\<forall>e \<in> set bu. end_of e \<le> unat off" by blast
    have g: "\<not> (case op_truncate op of Some t \<Rightarrow> t \<ge> off | None \<Rightarrow> False)"
      using ng by (auto split: option.splits)
    show ?thesis
      using assms(1,2) g bu
      by (simp add: truncate_def modify_ok Let_def find_assign find_subscript is_fresh_object_def)
  qed
  have mx: "\<exists>m' op'. truncate hoid off m = Inr m' \<and> find_map hoid m' = Some op' \<and>
               op_truncate op' = Some (case op_truncate op of None \<Rightarrow> off | Some t \<Rightarrow> max t off)"
    if nf: "\<not> is_fresh_object op"
      and inv: "I1 (buffer_updates op) \<and> I2 (buffer_updates op) \<and> I3 (buffer_updates op) \<and>
          ends_representable (buffer_updates op)"
  proof (cases "\<exists>t. op_truncate op = Some t \<and> off \<le> t")
    case True
    then obtain t where t: "op_truncate op = Some t" "off \<le> t" by blast
    then have "max t off = t" by (simp add: max_def)
    with guard [OF True] t show ?thesis by simp
  next
    case False
    from past [OF False inv] nf obtain m' op' where
      r: "truncate hoid off m = Inr m'" "find_map hoid m' = Some op'" "op_truncate op' = Some off"
      by blast
    have "(case op_truncate op of None \<Rightarrow> off | Some t \<Rightarrow> max t off) = off"
      using False by (auto simp: max_def split: option.splits)
    with r show ?thesis by simp
  qed
  from guard past mx show ?thesis by blast
qed

text \<open>
  Claim C2 as stated fails on its own scenario: \<^verbatim>\<open>truncate(O, 100)\<close> followed by
  \<^verbatim>\<open>truncate(O, 200)\<close> leaves the truncate at \<open>200\<close>, not at the minimum \<open>100\<close>.  It fails in
  the other order too: with the truncate at \<open>200\<close> and a buffer update at \<open>[150, 160)\<close>,
  \<^verbatim>\<open>truncate(O, 100)\<close> returns at the guard, the truncate stays at \<open>200\<close>, and the buffer
  update, which intersects \<open>[100, \<infinity>)\<close>, stays.
\<close>

theorem truncate_raises_counterexample:
  "truncate (10 :: nat) 100 [] = Inr [(10, ObjectOperation_default\<lparr>op_truncate := Some 100\<rparr>)] \<and>
   truncate (10 :: nat) 200 [(10, ObjectOperation_default\<lparr>op_truncate := Some 100\<rparr>)] =
     Inr [(10, ObjectOperation_default\<lparr>op_truncate := Some 200\<rparr>)] \<and>
   Some (200 :: 64 word) \<noteq> Some (min 100 200) \<and>
   truncate (10 :: nat) 100
       [(10, ObjectOperation_default\<lparr>op_truncate := Some 200,
                                       buffer_updates := [(150, (10, Write ''0123456789'' 0))]\<rparr>)] =
     Inr [(10, ObjectOperation_default\<lparr>op_truncate := Some 200,
                                         buffer_updates := [(150, (10, Write ''0123456789'' 0))]\<rparr>)] \<and>
   intersects 100 (uint64_max - 100) (150 :: 64 word, (10 :: 64 word, Write ''0123456789'' 0 :: nat BufferUpdateType)) \<and>
   Some (200 :: 64 word) \<noteq> Some (min 200 100)"
  by (simp add: truncate_def eval_pgt erase_def uint64_max_def get_range_def erase_loop.simps
      erase_range_def intersects_def start_of_def end_of_def)

theorem truncate_effect_witness:
  "truncate (10 :: nat) 155
       [(10, ObjectOperation_default\<lparr>op_truncate := Some 100,
                                       buffer_updates := [(150, (10, Write ''0123456789'' 0))]\<rparr>)] =
     Inr [(10, ObjectOperation_default\<lparr>op_truncate := Some 155,
                                         buffer_updates := [(150, (5, Write ''01234'' 0))]\<rparr>)] \<and>
   end_of (150 :: 64 word, (5 :: 64 word, Write ''01234'' 0 :: nat BufferUpdateType)) \<le> unat (155 :: 64 word) \<and>
   max (100 :: 64 word) 155 = 155 \<and>
   truncate (10 :: nat) 100
       [(10, ObjectOperation_default\<lparr>op_truncate := Some 200,
                                       buffer_updates := [(150, (10, Write ''0123456789'' 0))]\<rparr>)] =
     Inr [(10, ObjectOperation_default\<lparr>op_truncate := Some 200,
                                         buffer_updates := [(150, (10, Write ''0123456789'' 0))]\<rparr>)]"
proof -
  let ?op1 = "ObjectOperation_default\<lparr>op_truncate := Some 100,
      buffer_updates := [(150, (10, Write ''0123456789'' 0))]\<rparr> :: nat ObjectOperation"
  let ?op2 = "ObjectOperation_default\<lparr>op_truncate := Some 200,
      buffer_updates := [(150, (10, Write ''0123456789'' 0))]\<rparr> :: nat ObjectOperation"
  have a1: "?op1 = at_map 10 ObjectOperation_default [(10 :: nat, ?op1)]"
    and a2: "?op2 = at_map 10 ObjectOperation_default [(10 :: nat, ?op2)]"
    by (simp_all add: at_map_def find_map_def)
  have d1: "\<not> is_delete ?op1" and d2: "\<not> is_delete ?op2" by (simp_all add: eval_pgt)
  have h1: "\<not> (\<exists>t. op_truncate ?op1 = Some t \<and> 155 \<le> t) \<and>
      I1 (buffer_updates ?op1) \<and> I2 (buffer_updates ?op1) \<and> I3 (buffer_updates ?op1) \<and>
      ends_representable (buffer_updates ?op1)"
    by (simp add: eval_pgt eval_inv)
  have h2: "\<exists>t. op_truncate ?op2 = Some t \<and> 100 \<le> t" by (simp add: eval_pgt)
  from truncate_effect [OF a1 d1, of 155] h1 obtain m' where
    m': "truncate 10 155 [(10 :: nat, ?op1)] = Inr m'" by blast
  from truncate_effect [OF a2 d2, of 100] h2 have
    g: "truncate 10 100 [(10 :: nat, ?op2)] = Inr [(10 :: nat, ?op2)]" by blast
  have t: "truncate 10 155 [(10 :: nat, ?op1)] =
     Inr [(10, ObjectOperation_default\<lparr>op_truncate := Some 155,
                                         buffer_updates := [(150, (5, Write ''01234'' 0))]\<rparr>)]"
    by (simp add: truncate_def eval_pgt eval_im uint64_max_def)
  from m' t g show ?thesis by (simp add: end_of_def)
qed

subsection \<open>The traversal\<close>

lemma parent_of_mem:
  "distinct (map fst m) \<Longrightarrow> (h, op) \<in> set m \<Longrightarrow> parent_of m h = has_source op"
  by (simp add: parent_of_def find_map_def)

lemma count_map_0: "(count_map k m = 0) = (k \<notin> fst ` set m)"
  unfolding count_map_def find_map_def
  by (cases "map_of m k") (simp_all add: map_of_eq_None_iff [symmetric])

lemma pop_inv_step:
  assumes inv: "pop_inv m seen st" and mem: "(h, op) \<in> set m" and d: "distinct (map fst m)"
    and fresh: "h \<notin> set seen"
  shows "pop_inv m (seen @ [h]) (populate_step m (h, op) st)"
proof -
  obtain dg stack where st: "st = (dg, stack)" by (cases st)
  have p: "parent_of m h = has_source op" by (rule parent_of_mem [OF d mem])
  have hK: "h \<in> fst ` set m" using mem by force
  from inv have i0: "set seen \<subseteq> fst ` set m" by (simp add: pop_inv_def)
  from inv have
    i1: "\<And>s l. find_map s dg = Some l \<Longrightarrow>
          l \<noteq> [] \<and> distinct l \<and> set l = {h \<in> set seen. parent_of m h = Some s}"
    and i2: "\<And>x s. x \<in> set seen \<Longrightarrow> parent_of m x = Some s \<Longrightarrow> find_map s dg \<noteq> None"
    and i3: "distinct stack"
    and i4: "set stack = {h \<in> set seen. parent_of m h = None} \<union>
                         {s. find_map s dg \<noteq> None \<and> s \<notin> fst ` set m}"
    by (simp_all add: pop_inv_def st)
  show ?thesis
  proof (cases "has_source op")
    case None
    have hs: "h \<notin> set stack" using i4 fresh hK by auto
    have "populate_step m (h, op) st = (dg, stack @ [h])"
      by (simp add: populate_step_def st None)
    moreover have "pop_inv m (seen @ [h]) (dg, stack @ [h])"
      unfolding pop_inv_def using i0 hK i1 i2 i3 i4 hs p None fresh
      by (auto simp: )
    ultimately show ?thesis by simp
  next
    case (Some s)
    show ?thesis
    proof (cases "find_map s dg")
      case None
      let ?dg = "assign_map s [h] (subscript s [] dg)"
      let ?stack = "if s \<notin> fst ` set m then stack @ [s] else stack"
      have eq: "populate_step m (h, op) st = (?dg, ?stack)"
        by (simp add: populate_step_def st Some None at_map_def Let_def count_map_0)
      have f: "find_map x ?dg = (if x = s then Some [h] else find_map x dg)" for x
        by (simp add: find_assign find_subscript)
      have nos: "x \<in> set seen \<Longrightarrow> parent_of m x \<noteq> Some s" for x
        using i2 [of x s] None by auto
      have ss: "s \<in> set stack \<Longrightarrow> s \<in> fst ` set m" using i4 i0 None by auto
      have 1: "\<forall>x l. find_map x ?dg = Some l \<longrightarrow>
          l \<noteq> [] \<and> distinct l \<and> set l = {y \<in> set (seen @ [h]). parent_of m y = Some x}"
        using i1 p Some nos by (auto simp: f)
      have 2: "\<forall>y \<in> set (seen @ [h]). \<forall>x. parent_of m y = Some x \<longrightarrow> find_map x ?dg \<noteq> None"
        using i2 p Some by (auto simp: f)
      have 3: "distinct ?stack" using i3 ss by auto
      have 4: "set ?stack = {y \<in> set (seen @ [h]). parent_of m y = None} \<union>
                     {x. find_map x ?dg \<noteq> None \<and> x \<notin> fst ` set m}"
        using i4 p Some by (auto simp: f)
      show ?thesis unfolding eq pop_inv_def using i0 hK 1 2 3 4 by simp
    next
      case Some2: (Some l)
      let ?dg = "assign_map s (l @ [h]) dg"
      from i1 [OF Some2] have l: "l \<noteq> []" "distinct l"
        "set l = {h \<in> set seen. parent_of m h = Some s}" by simp_all
      have eq: "populate_step m (h, op) st = (?dg, stack)"
        using l(1) by (simp add: populate_step_def st Some Some2 at_map_def Let_def subscript_def)
      have f: "find_map x ?dg = (if x = s then Some (l @ [h]) else find_map x dg)" for x
        by (simp add: find_assign Some2)
      have 1: "\<forall>x l. find_map x ?dg = Some l \<longrightarrow>
          l \<noteq> [] \<and> distinct l \<and> set l = {y \<in> set (seen @ [h]). parent_of m y = Some x}"
        using i1 p Some l fresh by (auto simp: f)
      have 2: "\<forall>y \<in> set (seen @ [h]). \<forall>x. parent_of m y = Some x \<longrightarrow> find_map x ?dg \<noteq> None"
        using i2 p Some by (auto simp: f)
      have 4: "set stack = {y \<in> set (seen @ [h]). parent_of m y = None} \<union>
                     {x. find_map x ?dg \<noteq> None \<and> x \<notin> fst ` set m}"
        using i4 p Some Some2 by (auto simp: f)
      show ?thesis unfolding eq pop_inv_def using i0 hK 1 2 i3 4 by simp
    qed
  qed
qed

lemma pop_inv_fold:
  "pop_inv m seen st \<Longrightarrow> set rest \<subseteq> set m \<Longrightarrow> distinct (map fst m) \<Longrightarrow>
   distinct (seen @ map fst rest) \<Longrightarrow>
   pop_inv m (seen @ map fst rest) (fold (populate_step m) rest st)"
proof (induction rest arbitrary: seen st)
  case Nil
  then show ?case by simp
next
  case (Cons x rest)
  obtain h op where x: "x = (h, op)" by (cases x)
  have "pop_inv m (seen @ [h]) (populate_step m (h, op) st)"
    using Cons.prems x by (intro pop_inv_step) auto
  from Cons.IH [OF this] Cons.prems x show ?case by simp
qed

lemma pop_inv_populate:
  assumes "distinct (map fst m)"
  shows "pop_inv m (map fst m) (populate m)"
proof -
  have "pop_inv m [] ([], [])" by (simp add: pop_inv_def find_map_def)
  from pop_inv_fold [OF this subset_refl assms] assms show ?thesis
    by (simp add: populate_def)
qed

lemma before_append: "before x y xs \<Longrightarrow> before x y (xs @ zs)"
  by (induction xs) auto

lemma before_snoc: "x \<in> set xs \<Longrightarrow> before x y (xs @ [y])"
  by (induction xs) auto

lemma before_mem: "before x y xs \<Longrightarrow> x \<in> set xs \<and> y \<in> set xs"
  by (induction xs) (auto split: if_splits)

lemma parent_of_key: "parent_of m h = Some s \<Longrightarrow> h \<in> fst ` set m"
  by (auto simp: parent_of_def find_map_def split: option.splits dest!: map_of_SomeD intro: rev_image_eqI)

lemma find_map_key: "find_map h m = Some op \<Longrightarrow> h \<in> fst ` set m"
  by (auto simp: find_map_def dest!: map_of_SomeD intro: rev_image_eqI)

lemma find_map_None_key: "find_map h m = None \<Longrightarrow> h \<notin> fst ` set m"
  by (simp add: find_map_def map_of_eq_None_iff)

lemma trav_inv_init:
  assumes "distinct (map fst m)"
  shows "trav_inv m (fst (populate m)) (snd (populate m)) []"
proof -
  let ?dg = "fst (populate m)" and ?st = "snd (populate m)"
  note pi = pop_inv_populate [OF assms, unfolded pop_inv_def]
  have i2: "\<And>x s. x \<in> fst ` set m \<Longrightarrow> parent_of m x = Some s \<Longrightarrow> find_map s ?dg \<noteq> None"
    using pi by fastforce
  from pi have
    i1: "\<And>s l. find_map s ?dg = Some l \<Longrightarrow>
          l \<noteq> [] \<and> distinct l \<and> set l = {h \<in> fst ` set m. parent_of m h = Some s}"
    and i3: "distinct ?st"
    and i4: "set ?st = {h \<in> fst ` set m. parent_of m h = None} \<union>
                         {s. find_map s ?dg \<noteq> None \<and> s \<notin> fst ` set m}"
    by simp_all
  have a: "\<forall>s l. find_map s ?dg = Some l \<longrightarrow>
         l \<noteq> [] \<and> distinct l \<and>
         (\<forall>h \<in> set l. parent_of m h = Some s \<and> h \<notin> set ?st \<and> h \<notin> fst ` set [])"
  proof (intro allI impI)
    fix s l assume f: "find_map s ?dg = Some l"
    from i1 [OF f] have l: "l \<noteq> []" "distinct l"
      "set l = {h \<in> fst ` set m. parent_of m h = Some s}" by simp_all
    have "parent_of m h = Some s \<and> h \<notin> set ?st \<and> h \<notin> fst ` set []" if "h \<in> set l" for h
      using that l(3) i4 by auto
    with l show "l \<noteq> [] \<and> distinct l \<and>
         (\<forall>h \<in> set l. parent_of m h = Some s \<and> h \<notin> set ?st \<and> h \<notin> fst ` set [])" by blast
  qed
  have d: "\<forall>h \<in> fst ` set m. h \<in> fst ` set [] \<or> h \<in> set ?st \<or>
         (\<exists>s l. find_map s ?dg = Some l \<and> h \<in> set l)"
  proof
    fix h assume h: "h \<in> fst ` set m"
    show "h \<in> fst ` set [] \<or> h \<in> set ?st \<or> (\<exists>s l. find_map s ?dg = Some l \<and> h \<in> set l)"
    proof (cases "parent_of m h")
      case None
      with h i4 show ?thesis by simp
    next
      case (Some s)
      from i2 [OF h Some] obtain l where l: "find_map s ?dg = Some l" by auto
      with i1 [OF l] h Some show ?thesis by auto
    qed
  qed
  have e: "\<forall>s. find_map s ?dg \<noteq> None \<longrightarrow>
         s \<in> set ?st \<or> (\<exists>s' l. find_map s' ?dg = Some l \<and> s \<in> set l)"
  proof (intro allI impI)
    fix s assume s: "find_map s ?dg \<noteq> None"
    show "s \<in> set ?st \<or> (\<exists>s' l. find_map s' ?dg = Some l \<and> s \<in> set l)"
    proof (cases "s \<in> fst ` set m")
      case True
      with d show ?thesis by auto
    next
      case False
      with s i4 show ?thesis by simp
    qed
  qed
  have o2: "\<forall>h s. parent_of m h = Some s \<longrightarrow> h \<notin> fst ` set [] \<longrightarrow>
         (\<exists>l. find_map s ?dg = Some l \<and> h \<in> set l) \<or>
         (\<exists>pre post. ?st = pre @ s # post \<and> h \<in> set pre)"
  proof (intro allI impI)
    fix h s assume p: "parent_of m h = Some s"
    have h: "h \<in> fst ` set m" by (rule parent_of_key [OF p])
    from i2 [OF h p] obtain l where l: "find_map s ?dg = Some l" by auto
    with i1 [OF l] h p
    show "(\<exists>l. find_map s ?dg = Some l \<and> h \<in> set l) \<or>
         (\<exists>pre post. ?st = pre @ s # post \<and> h \<in> set pre)" by auto
  qed
  show ?thesis unfolding trav_inv_def using a i3 d e o2 by simp
qed

lemma trav_invD:
  assumes "trav_inv m dg stack visited"
  shows "\<forall>s l. find_map s dg = Some l \<longrightarrow>
         l \<noteq> [] \<and> distinct l \<and>
         (\<forall>h \<in> set l. parent_of m h = Some s \<and> h \<notin> set stack \<and> h \<notin> fst ` set visited)"
    and "distinct (map fst visited @ stack)"
    and "\<forall>e \<in> set visited. find_map (fst e) m = Some (snd e)"
    and "\<forall>h \<in> fst ` set m. h \<in> fst ` set visited \<or> h \<in> set stack \<or>
         (\<exists>s l. find_map s dg = Some l \<and> h \<in> set l)"
    and "\<forall>s. find_map s dg \<noteq> None \<longrightarrow>
         s \<in> set stack \<or> (\<exists>s' l. find_map s' dg = Some l \<and> s \<in> set l)"
    and "\<forall>h s. parent_of m h = Some s \<longrightarrow> s \<in> fst ` set visited \<longrightarrow>
         before h s (map fst visited)"
    and "\<forall>h s. parent_of m h = Some s \<longrightarrow> h \<notin> fst ` set visited \<longrightarrow>
         (\<exists>l. find_map s dg = Some l \<and> h \<in> set l) \<or>
         (\<exists>pre post. stack = pre @ s # post \<and> h \<in> set pre)"
  using assms unfolding trav_inv_def by simp_all

lemma trav_invI:
  assumes "\<forall>s l. find_map s dg = Some l \<longrightarrow>
         l \<noteq> [] \<and> distinct l \<and>
         (\<forall>h \<in> set l. parent_of m h = Some s \<and> h \<notin> set stack \<and> h \<notin> fst ` set visited)"
    and "distinct (map fst visited @ stack)"
    and "\<forall>e \<in> set visited. find_map (fst e) m = Some (snd e)"
    and "\<forall>h \<in> fst ` set m. h \<in> fst ` set visited \<or> h \<in> set stack \<or>
         (\<exists>s l. find_map s dg = Some l \<and> h \<in> set l)"
    and "\<forall>s. find_map s dg \<noteq> None \<longrightarrow>
         s \<in> set stack \<or> (\<exists>s' l. find_map s' dg = Some l \<and> s \<in> set l)"
    and "\<forall>h s. parent_of m h = Some s \<longrightarrow> s \<in> fst ` set visited \<longrightarrow>
         before h s (map fst visited)"
    and "\<forall>h s. parent_of m h = Some s \<longrightarrow> h \<notin> fst ` set visited \<longrightarrow>
         (\<exists>l. find_map s dg = Some l \<and> h \<in> set l) \<or>
         (\<exists>pre post. stack = pre @ s # post \<and> h \<in> set pre)"
  shows "trav_inv m dg stack visited"
  unfolding trav_inv_def using assms by (intro conjI)

lemma trav_inv_leaf:
  assumes inv: "trav_inv m dg (cur # stack) visited" and leaf: "find_map cur dg = None"
  shows "trav_inv m dg stack
           (case find_map cur m of Some op \<Rightarrow> visited @ [(cur, op)] | None \<Rightarrow> visited)"
proof -
  let ?v = "case find_map cur m of Some op \<Rightarrow> visited @ [(cur, op)] | None \<Rightarrow> visited"
  note D = trav_invD [OF inv]
  have a: "\<And>s l. find_map s dg = Some l \<Longrightarrow> l \<noteq> [] \<and> distinct l \<and>
         (\<forall>h \<in> set l. parent_of m h = Some s \<and> h \<notin> set (cur # stack) \<and> h \<notin> fst ` set visited)"
    using D(1) by blast
  note b = D(2) and c = D(3) and d = D(4) and e = D(5)
  have o1: "\<And>h s. parent_of m h = Some s \<Longrightarrow> s \<in> fst ` set visited \<Longrightarrow>
         before h s (map fst visited)"
    using D(6) by blast
  have o2: "\<And>h s. parent_of m h = Some s \<Longrightarrow> h \<notin> fst ` set visited \<Longrightarrow>
         (\<exists>l. find_map s dg = Some l \<and> h \<in> set l) \<or>
         (\<exists>pre post. cur # stack = pre @ s # post \<and> h \<in> set pre)"
    using D(7) by blast
  have v: "fst ` set ?v = (if cur \<in> fst ` set m then insert cur (fst ` set visited)
                           else fst ` set visited)"
    using find_map_key [of cur m] find_map_None_key [of cur m]
    by (cases "find_map cur m") auto
  have mv: "map fst ?v = (if cur \<in> fst ` set m then map fst visited @ [cur] else map fst visited)"
    using find_map_key [of cur m] find_map_None_key [of cur m]
    by (cases "find_map cur m") auto
  have a': "\<forall>s l. find_map s dg = Some l \<longrightarrow> l \<noteq> [] \<and> distinct l \<and>
         (\<forall>h \<in> set l. parent_of m h = Some s \<and> h \<notin> set stack \<and> h \<notin> fst ` set ?v)"
  proof (intro allI impI)
    fix s l assume f: "find_map s dg = Some l"
    from a [OF f] have 1: "l \<noteq> []" "distinct l"
      and 2: "\<And>h. h \<in> set l \<Longrightarrow>
        parent_of m h = Some s \<and> h \<notin> set (cur # stack) \<and> h \<notin> fst ` set visited"
      by simp_all
    have "parent_of m h = Some s \<and> h \<notin> set stack \<and> h \<notin> fst ` set ?v" if "h \<in> set l" for h
      using 2 [OF that] unfolding v by auto
    with 1 show "l \<noteq> [] \<and> distinct l \<and>
         (\<forall>h \<in> set l. parent_of m h = Some s \<and> h \<notin> set stack \<and> h \<notin> fst ` set ?v)"
      by blast
  qed
  have b': "distinct (map fst ?v @ stack)" using b unfolding mv by auto
  have c': "\<forall>e \<in> set ?v. find_map (fst e) m = Some (snd e)"
    using c by (cases "find_map cur m") auto
  have d': "\<forall>h \<in> fst ` set m. h \<in> fst ` set ?v \<or> h \<in> set stack \<or>
         (\<exists>s l. find_map s dg = Some l \<and> h \<in> set l)"
    using d unfolding v by auto
  have e': "\<forall>s. find_map s dg \<noteq> None \<longrightarrow>
         s \<in> set stack \<or> (\<exists>s' l. find_map s' dg = Some l \<and> s \<in> set l)"
    using e leaf by auto
  have o1': "before h s (map fst ?v)" if p: "parent_of m h = Some s" and s: "s \<in> fst ` set ?v" for h s
  proof (cases "s \<in> fst ` set visited")
    case True
    from o1 [OF p True] show ?thesis unfolding mv by (simp add: before_append)
  next
    case False
    with s have sc: "s = cur" and ck: "cur \<in> fst ` set m" unfolding v by (auto split: if_splits)
    have "h \<in> fst ` set visited"
    proof (rule ccontr)
      assume "h \<notin> fst ` set visited"
      from o2 [OF p this] leaf sc obtain pre post where
        pp: "cur # stack = pre @ cur # post" "h \<in> set pre" by auto
      from pp(2) obtain pre' where "pre = cur # pre'" using pp(1) by (cases pre) auto
      with pp(1) have "cur \<in> set stack" by auto
      with b show False by simp
    qed
    then have "h \<in> set (map fst visited)" by simp
    from before_snoc [OF this, of cur] show ?thesis unfolding mv using ck sc by simp
  qed
  have o2': "(\<exists>l. find_map s dg = Some l \<and> h \<in> set l) \<or>
         (\<exists>pre post. stack = pre @ s # post \<and> h \<in> set pre)"
    if p: "parent_of m h = Some s" and h: "h \<notin> fst ` set ?v" for h s
  proof -
    have hk: "h \<in> fst ` set m" by (rule parent_of_key [OF p])
    with h have hv: "h \<notin> fst ` set visited" and hc: "h \<noteq> cur" unfolding v by (auto split: if_splits)
    from o2 [OF p hv] show ?thesis
    proof
      assume "\<exists>l. find_map s dg = Some l \<and> h \<in> set l"
      then show ?thesis ..
    next
      assume "\<exists>pre post. cur # stack = pre @ s # post \<and> h \<in> set pre"
      then obtain pre post where pp: "cur # stack = pre @ s # post" "h \<in> set pre" by blast
      from pp obtain pre' where pre: "pre = cur # pre'" by (cases pre) auto
      with pp hc have "stack = pre' @ s # post" "h \<in> set pre'" by auto
      then show ?thesis by blast
    qed
  qed
  show ?thesis
    apply (rule trav_invI)
    subgoal using a' by blast
    subgoal by (rule b')
    subgoal by (rule c')
    subgoal by (rule d')
    subgoal by (rule e')
    subgoal using o1' by blast
    subgoal using o2' by blast
    done
qed

lemma trav_inv_internal:
  assumes inv: "trav_inv m dg (cur # stack) visited" and node: "find_map cur dg = Some l"
  shows "l \<noteq> [] \<and> trav_inv m (erase_key cur dg) (l @ cur # stack) visited"
proof -
  let ?dg = "erase_key cur dg" and ?st = "l @ cur # stack"
  note D = trav_invD [OF inv]
  have a: "\<And>s l. find_map s dg = Some l \<Longrightarrow> l \<noteq> [] \<and> distinct l \<and>
         (\<forall>h \<in> set l. parent_of m h = Some s \<and> h \<notin> set (cur # stack) \<and> h \<notin> fst ` set visited)"
    using D(1) by blast
  note b = D(2) and c = D(3) and d = D(4) and e = D(5)
  have o1: "\<And>h s. parent_of m h = Some s \<Longrightarrow> s \<in> fst ` set visited \<Longrightarrow>
         before h s (map fst visited)"
    using D(6) by blast
  have o2: "\<And>h s. parent_of m h = Some s \<Longrightarrow> h \<notin> fst ` set visited \<Longrightarrow>
         (\<exists>l. find_map s dg = Some l \<and> h \<in> set l) \<or>
         (\<exists>pre post. cur # stack = pre @ s # post \<and> h \<in> set pre)"
    using D(7) by blast
  have f: "find_map s ?dg = (if s = cur then None else find_map s dg)" for s
    by (rule find_erase_key)
  from a [OF node] have l: "l \<noteq> []" "distinct l"
    "\<And>h. h \<in> set l \<Longrightarrow> parent_of m h = Some cur \<and> h \<notin> set (cur # stack) \<and> h \<notin> fst ` set visited"
    by simp_all
  have a': "l' \<noteq> [] \<and> distinct l' \<and>
         (\<forall>h \<in> set l'. parent_of m h = Some s \<and> h \<notin> set ?st \<and> h \<notin> fst ` set visited)"
    if "find_map s ?dg = Some l'" for s l'
  proof -
    from that have sc: "s \<noteq> cur" and fs: "find_map s dg = Some l'" by (auto simp: f split: if_splits)
    have "h \<notin> set l" if "h \<in> set l'" for h
      using a [OF fs] l(3) [of h] that sc by auto
    with a [OF fs] show ?thesis by auto
  qed
  have b': "distinct (map fst visited @ ?st)" using b l by auto
  have d': "\<forall>h \<in> fst ` set m. h \<in> fst ` set visited \<or> h \<in> set ?st \<or>
         (\<exists>s l. find_map s ?dg = Some l \<and> h \<in> set l)"
  proof
    fix h assume "h \<in> fst ` set m"
    with d consider "h \<in> fst ` set visited" | "h \<in> set (cur # stack)"
      | s l' where "find_map s dg = Some l'" "h \<in> set l'" by blast
    then show "h \<in> fst ` set visited \<or> h \<in> set ?st \<or>
         (\<exists>s l. find_map s ?dg = Some l \<and> h \<in> set l)"
    proof cases
      case 3
      then show ?thesis using node by (cases "s = cur") (auto simp: f)
    qed auto
  qed
  have e': "\<forall>s. find_map s ?dg \<noteq> None \<longrightarrow>
         s \<in> set ?st \<or> (\<exists>s' l. find_map s' ?dg = Some l \<and> s \<in> set l)"
  proof (intro allI impI)
    fix s assume "find_map s ?dg \<noteq> None"
    then have "find_map s dg \<noteq> None" by (auto simp: f split: if_splits)
    with e consider "s \<in> set (cur # stack)"
      | s' l' where "find_map s' dg = Some l'" "s \<in> set l'" by blast
    then show "s \<in> set ?st \<or> (\<exists>s' l. find_map s' ?dg = Some l \<and> s \<in> set l)"
    proof cases
      case 2
      then show ?thesis using node by (cases "s' = cur") (auto simp: f)
    qed auto
  qed
  have o2': "(\<exists>l. find_map s ?dg = Some l \<and> h \<in> set l) \<or>
         (\<exists>pre post. ?st = pre @ s # post \<and> h \<in> set pre)"
    if p: "parent_of m h = Some s" and h: "h \<notin> fst ` set visited" for h s
    using o2 [OF p h]
  proof
    assume "\<exists>l. find_map s dg = Some l \<and> h \<in> set l"
    then obtain l' where l': "find_map s dg = Some l'" "h \<in> set l'" by blast
    show ?thesis
    proof (cases "s = cur")
      case True
      with l' node have "?st = l @ s # stack" "h \<in> set l" by auto
      then show ?thesis by blast
    next
      case False
      with l' show ?thesis by (auto simp: f)
    qed
  next
    assume "\<exists>pre post. cur # stack = pre @ s # post \<and> h \<in> set pre"
    then obtain pre post where pp: "cur # stack = pre @ s # post" "h \<in> set pre" by blast
    then have "?st = (l @ pre) @ s # post" "h \<in> set (l @ pre)" by auto
    then show ?thesis by blast
  qed
  have "trav_inv m ?dg ?st visited"
    apply (rule trav_invI)
    subgoal using a' by blast
    subgoal by (rule b')
    subgoal by (rule c)
    subgoal by (rule d')
    subgoal by (rule e')
    subgoal by (rule D(6))
    subgoal using o2' by blast
    done
  with l(1) show ?thesis by simp
qed

lemma traverse_loop_inv:
  "trav_inv m dg stack visited \<Longrightarrow>
   \<exists>visited' dg'. traverse_loop m dg stack visited = Inr visited' \<and> trav_inv m dg' [] visited'"
proof (induction m dg stack visited rule: traverse_loop.induct)
  case (1 op_map dgraph visited)
  then show ?case by auto
next
  case (2 op_map dgraph cur stack visited)
  show ?case
  proof (cases "find_map cur dgraph")
    case None
    from "2.IH"(1) [OF None trav_inv_leaf [OF "2.prems" None]] None show ?thesis by simp
  next
    case (Some l)
    from trav_inv_internal [OF "2.prems" Some]
    have l: "l \<noteq> []" and i: "trav_inv op_map (erase_key cur dgraph) (l @ cur # stack) visited"
      by simp_all
    from "2.IH"(2) [OF Some l i] Some l show ?thesis by simp
  qed
qed

lemma finite_edges: "finite (edges m)"
proof -
  have "edges m \<subseteq> (\<lambda>h. (the (parent_of m h), h)) ` (fst ` set m)"
  proof
    fix e assume "e \<in> edges m"
    then have p: "parent_of m (snd e) = Some (fst e)" by (auto simp: edges_def)
    then have "snd e \<in> fst ` set m" by (rule parent_of_key)
    moreover have "e = (the (parent_of m (snd e)), snd e)" using p by simp
    ultimately show "e \<in> (\<lambda>h. (the (parent_of m h), h)) ` (fst ` set m)" by (rule rev_image_eqI)
  qed
  then show ?thesis by (rule finite_subset) simp
qed

lemma trav_inv_done:
  assumes inv: "trav_inv m dg [] visited" and ac: "acyclic (edges m)"
  shows "fst ` set m \<subseteq> fst ` set visited"
proof -
  note D = trav_invD [OF inv]
  have wf: "wf (edges m)" using finite_edges ac by (rule finite_acyclic_wf)
  have empty: "find_map s dg = None" for s
  proof (rule ccontr)
    assume "find_map s dg \<noteq> None"
    then have "s \<in> {s. find_map s dg \<noteq> None}" by simp
    with wf obtain z where z: "z \<in> {s. find_map s dg \<noteq> None}"
      and min: "\<And>y. (y, z) \<in> edges m \<Longrightarrow> y \<notin> {s. find_map s dg \<noteq> None}"
      by (rule wfE_min) blast
    from z D(5) obtain s' l where l: "find_map s' dg = Some l" "z \<in> set l" by auto
    with D(1) have "parent_of m z = Some s'" by blast
    then have "(s', z) \<in> edges m" by (simp add: edges_def)
    from min [OF this] l(1) show False by simp
  qed
  show ?thesis using D(4) empty by auto
qed

text \<open>
  Claim C1.  Let the keys of \<^verbatim>\<open>op_map\<close> be in strictly ascending order, as in every
  \<^verbatim>\<open>std::map\<close>, and let the clone and rename edges from source to target be acyclic.  Then
  \<^verbatim>\<open>safe_create_traverse\<close> returns, it has called \<open>t\<close> exactly once on each pair of \<^verbatim>\<open>op_map\<close>
  and on nothing else, an entry whose source is a key of \<^verbatim>\<open>op_map\<close> is visited before the entry
  of that source, and a source that is not a key of \<^verbatim>\<open>op_map\<close> is never passed to \<open>t\<close>.
\<close>

theorem safe_create_traverse_order:
  assumes "sorted_keys op_map" and "acyclic (edges op_map)"
  shows "\<exists>visited. safe_create_traverse op_map = Inr visited \<and>
           distinct visited \<and> set visited = set op_map \<and>
           (\<forall>target op source. find_map target op_map = Some op \<longrightarrow> has_source op = Some source \<longrightarrow>
              find_map source op_map \<noteq> None \<longrightarrow> before target source (map fst visited)) \<and>
           (\<forall>source. find_map source op_map = None \<longrightarrow> source \<notin> fst ` set visited)"
proof -
  have d: "distinct (map fst op_map)"
    using assms(1) by (simp add: sorted_keys_def strict_sorted_iff)
  from traverse_loop_inv [OF trav_inv_init [OF d]] obtain visited dg where
    r: "traverse_loop op_map (fst (populate op_map)) (snd (populate op_map)) [] = Inr visited"
    and inv: "trav_inv op_map dg [] visited" by blast
  note D = trav_invD [OF inv]
  have all: "fst ` set op_map \<subseteq> fst ` set visited" by (rule trav_inv_done [OF inv assms(2)])
  have sub: "set visited \<subseteq> set op_map"
  proof
    fix e assume "e \<in> set visited"
    with D(3) have "map_of op_map (fst e) = Some (snd e)" by (simp add: find_map_def)
    from map_of_SomeD [OF this] show "e \<in> set op_map" by simp
  qed
  have sup: "set op_map \<subseteq> set visited"
  proof
    fix e assume e: "e \<in> set op_map"
    then have "fst e \<in> fst ` set visited" using all by auto
    then obtain e' where e': "e' \<in> set visited" "fst e' = fst e" by auto
    with D(3) have "map_of op_map (fst e) = Some (snd e')" by (auto simp: find_map_def)
    moreover have "map_of op_map (fst e) = Some (snd e)"
      using map_of_is_SomeI [OF d, of "fst e" "snd e"] e by simp
    ultimately have "e' = e" using e'(2) by (simp add: prod_eq_iff)
    with e'(1) show "e \<in> set visited" by simp
  qed
  have dv: "distinct visited" using D(2) by (simp add: distinct_map)
  have ord: "before target source (map fst visited)"
    if "find_map target op_map = Some op" "has_source op = Some source"
      "find_map source op_map \<noteq> None" for target op source
  proof -
    have "parent_of op_map target = Some source" using that by (simp add: parent_of_def)
    moreover have "source \<in> fst ` set visited"
      using that(3) all find_map_key [of source op_map] by auto
    ultimately show ?thesis using D(6) by blast
  qed
  have out: "source \<notin> fst ` set visited" if "find_map source op_map = None" for source
    using find_map_None_key [OF that] sub by auto
  show ?thesis
    using r dv sub sup ord out by (auto simp: safe_create_traverse_def Let_def)
qed

lemma acyclic_increasing: "\<forall>(s :: nat, h) \<in> r. s < h \<Longrightarrow> acyclic r"
proof -
  assume a: "\<forall>(s, h) \<in> r. s < h"
  have "r \<subseteq> {(x, y). x < y}" using a by auto
  with wf_less have "wf r" by (rule wf_subset)
  then show ?thesis by (rule wf_acyclic)
qed

theorem safe_create_traverse_order_witness:
  "sorted_keys [(10 :: nat, ObjectOperation_default\<lparr>clear_omap := True\<rparr>),
                (20, ObjectOperation_default\<lparr>init_type := Init_Clone 10\<rparr>),
                (30, ObjectOperation_default\<lparr>init_type := Init_Clone 20\<rparr>),
                (40, ObjectOperation_default\<lparr>init_type := Init_Create\<rparr>)] \<and>
   acyclic (edges [(10 :: nat, ObjectOperation_default\<lparr>clear_omap := True\<rparr>),
                (20, ObjectOperation_default\<lparr>init_type := Init_Clone 10\<rparr>),
                (30, ObjectOperation_default\<lparr>init_type := Init_Clone 20\<rparr>),
                (40, ObjectOperation_default\<lparr>init_type := Init_Create\<rparr>)]) \<and>
   safe_create_traverse [(10 :: nat, ObjectOperation_default\<lparr>clear_omap := True\<rparr>),
                (20, ObjectOperation_default\<lparr>init_type := Init_Clone 10\<rparr>),
                (30, ObjectOperation_default\<lparr>init_type := Init_Clone 20\<rparr>),
                (40, ObjectOperation_default\<lparr>init_type := Init_Create\<rparr>)] =
     Inr [(30, ObjectOperation_default\<lparr>init_type := Init_Clone 20\<rparr>),
          (20, ObjectOperation_default\<lparr>init_type := Init_Clone 10\<rparr>),
          (10, ObjectOperation_default\<lparr>clear_omap := True\<rparr>),
          (40, ObjectOperation_default\<lparr>init_type := Init_Create\<rparr>)] \<and>
   before (30 :: nat) 20 [30, 20, 10, 40] \<and> before (20 :: nat) 10 [30, 20, 10, 40]"
proof -
  let ?m = "[(10 :: nat, ObjectOperation_default\<lparr>clear_omap := True\<rparr>),
                (20, ObjectOperation_default\<lparr>init_type := Init_Clone 10\<rparr>),
                (30, ObjectOperation_default\<lparr>init_type := Init_Clone 20\<rparr>),
                (40, ObjectOperation_default\<lparr>init_type := Init_Create\<rparr>)]"
  have s: "sorted_keys ?m" by (simp add: sorted_keys_def)
  have "\<forall>(s, h) \<in> edges ?m. s < h"
    by (auto simp: edges_def parent_of_def find_map_def has_source_def ObjectOperation_default_def
        split: if_splits)
  then have a: "acyclic (edges ?m)" by (rule acyclic_increasing)
  from safe_create_traverse_order [OF s a] obtain visited where
    v: "safe_create_traverse ?m = Inr visited" by blast
  have e: "safe_create_traverse ?m =
     Inr [(30, ObjectOperation_default\<lparr>init_type := Init_Clone 20\<rparr>),
          (20, ObjectOperation_default\<lparr>init_type := Init_Clone 10\<rparr>),
          (10, ObjectOperation_default\<lparr>clear_omap := True\<rparr>),
          (40, ObjectOperation_default\<lparr>init_type := Init_Create\<rparr>)]"
    by (simp add: safe_create_traverse_def populate_def populate_step_def has_source_def
        subscript_def at_map_def count_map_def find_map_def assign_map_def erase_key_def
        ObjectOperation_default_def)
  from s a v e show ?thesis by simp
qed

end
